theory Spec2Isabelle
  imports Main "HOL-Library.Word"
begin

section \<open>The list index of rosedb (ds/list/list.go)\<close>

text \<open>
  The index maps string keys to doubly linked lists (Go's container/list) of byte slices.
  The model keeps the shape of the source: one definition per Go function, one recursive
  function per loop, explicit state passing for the receiver \<open>lis\<close>, and a sum type for
  the one run-time failure the code can meet, a nil pointer dereference.

  Go's \<open>int\<close> is modelled as \<open>int\<close>. The additions of the file add a length to a
  negative index, its subtractions are between values from 0 to a length, and the counters
  of its loops stay between -1 and a length, so none of them leaves the 64-bit range; the
  shift \<open>length >> 1\<close> of a length is \<open>length div 2\<close>. The one operation that can
  overflow is the negation \<open>-count\<close> of LRem; its wrap-around is written out in
  \<open>neg_int\<close>.
\<close>

subsection \<open>Byte slices\<close>

text \<open>
  A byte is a \<open>char\<close> (eight bits). A slice \<open>[]byte\<close> is \<open>None\<close> when it is nil and
  \<open>Some bs\<close> otherwise; \<open>len\<close> of the nil slice is 0. A Go string is a \<open>string\<close>.
\<close>

type_synonym byte = char
type_synonym bytes = "byte list option"

definition bytes_of :: "bytes \<Rightarrow> byte list" where
  "bytes_of b = (case b of None \<Rightarrow> [] | Some bs \<Rightarrow> bs)"

definition len :: "bytes \<Rightarrow> int" where
  "len b = int (length (bytes_of b))"

definition at :: "bytes \<Rightarrow> int \<Rightarrow> byte" where
  "at b i = bytes_of b ! nat i"

text \<open>The loop of sliceOfByteIsEqual: \<open>for i := 0; i < aLen; i++\<close>.\<close>

function sliceOfByteIsEqual_loop :: "bytes \<Rightarrow> bytes \<Rightarrow> int \<Rightarrow> int \<Rightarrow> bool" where
  "sliceOfByteIsEqual_loop a b aLen i =
     (if i < aLen then
        (if at a i \<noteq> at b i then False else sliceOfByteIsEqual_loop a b aLen (i + 1))
      else True)"
  by pat_completeness auto
termination
  by (relation "measure (\<lambda>(a, b, aLen, i). nat (aLen - i))") auto

definition sliceOfByteIsEqual :: "bytes \<Rightarrow> bytes \<Rightarrow> bool" where
  "sliceOfByteIsEqual a b =
     (let aLen = len a; bLen = len b in
      if aLen = bLen then sliceOfByteIsEqual_loop a b aLen 0 else False)"

subsection \<open>container/list\<close>

text \<open>
  A non-nil \<open>*list.List\<close> is the sequence of its values from head to tail. A
  \<open>*list.Element\<close> is nil (\<open>None\<close>) or names a node of a list by the node's position in
  that list (\<open>Some e\<close>); the code never keeps an element across a mutation of its list
  except in the removal loops, which \<open>RemoveEach\<close> models with node identities.
\<close>

type_synonym Element = nat
type_synonym pointer = "Element option"

datatype panic = NilDereference

definition Len :: "'a list \<Rightarrow> int" where
  "Len l = int (length l)"

definition Front :: "'a list \<Rightarrow> pointer" where
  "Front l = (if l = [] then None else Some 0)"

definition Back :: "'a list \<Rightarrow> pointer" where
  "Back l = (if l = [] then None else Some (length l - 1))"

definition Next :: "'a list \<Rightarrow> Element \<Rightarrow> pointer" where
  "Next l e = (if Suc e < length l then Some (Suc e) else None)"

definition Prev :: "'a list \<Rightarrow> Element \<Rightarrow> pointer" where
  "Prev l e = (if 0 < e \<and> e < length l then Some (e - 1) else None)"

definition Value :: "'a list \<Rightarrow> Element \<Rightarrow> 'a" where
  "Value l e = l ! e"

definition PushFront :: "'a list \<Rightarrow> 'a \<Rightarrow> 'a list" where
  "PushFront l v = v # l"

definition PushBack :: "'a list \<Rightarrow> 'a \<Rightarrow> 'a list" where
  "PushBack l v = l @ [v]"

definition InsertBefore :: "'a list \<Rightarrow> 'a \<Rightarrow> Element \<Rightarrow> 'a list" where
  "InsertBefore l v mark = take mark l @ [v] @ drop mark l"

definition InsertAfter :: "'a list \<Rightarrow> 'a \<Rightarrow> Element \<Rightarrow> 'a list" where
  "InsertAfter l v mark = take (Suc mark) l @ [v] @ drop (Suc mark) l"

text \<open>
  \<open>Remove\<close> unlinks one node and leaves every other node, and the pointers to it, as
  they are. A loop \<open>for _, e := range ele { item.Remove(e) }\<close> therefore works on nodes,
  not on positions that shift: \<open>RemoveEach\<close> tags every node with the position it had
  when the elements were collected, removes the collected nodes one after the other, and
  reads the values back.
\<close>

definition Remove :: "(Element \<times> 'a) list \<Rightarrow> Element \<Rightarrow> (Element \<times> 'a) list" where
  "Remove nodes e = filter (\<lambda>n. fst n \<noteq> e) nodes"

definition RemoveEach :: "'a list \<Rightarrow> Element list \<Rightarrow> 'a list" where
  "RemoveEach l ele = map snd (foldl Remove (zip [0..<length l] l) ele)"

subsection \<open>The index\<close>

text \<open>
  \<open>Record\<close> is \<open>map[string]*list.List\<close>: a key is absent (\<open>None\<close>), present with a nil
  list (\<open>Some None\<close>) or present with a list (\<open>Some (Some l)\<close>). Reading
  \<open>lis.record[key]\<close> gives nil for an absent key, which is \<open>item\<close>.
\<close>

type_synonym Record = "string \<rightharpoonup> bytes list option"

record ListIdx =
  records :: Record

definition New :: ListIdx where
  "New = \<lparr>records = Map.empty\<rparr>"

definition item :: "ListIdx \<Rightarrow> string \<Rightarrow> bytes list option" where
  "item lis key = (case records lis key of None \<Rightarrow> None | Some l \<Rightarrow> l)"

definition store :: "ListIdx \<Rightarrow> string \<Rightarrow> bytes list option \<Rightarrow> ListIdx" where
  "store lis key l = lis\<lparr>records := (records lis)(key \<mapsto> l)\<rparr>"

definition LLen :: "ListIdx \<Rightarrow> string \<Rightarrow> int" where
  "LLen lis key = (case item lis key of None \<Rightarrow> 0 | Some l \<Rightarrow> Len l)"

definition LClear :: "ListIdx \<Rightarrow> string \<Rightarrow> ListIdx" where
  "LClear lis key = lis\<lparr>records := (records lis)(key := None)\<rparr>"

definition LKeyExists :: "ListIdx \<Rightarrow> string \<Rightarrow> bool" where
  "LKeyExists lis key = (records lis key \<noteq> None)"

subsection \<open>push and pop\<close>

fun push_loop :: "bool \<Rightarrow> string \<Rightarrow> bytes list \<Rightarrow> ListIdx \<Rightarrow> panic + ListIdx" where
  "push_loop front key [] lis = Inr lis"
| "push_loop front key (v # val) lis =
     (case item lis key of
        None \<Rightarrow> Inl NilDereference
      | Some l \<Rightarrow>
          push_loop front key val
            (store lis key (Some (if front then PushFront l v else PushBack l v))))"

definition push :: "ListIdx \<Rightarrow> bool \<Rightarrow> string \<Rightarrow> bytes list \<Rightarrow> panic + (int \<times> ListIdx)" where
  "push lis front key val =
     (let lis1 = (if item lis key = None then store lis key (Some []) else lis) in
      case push_loop front key val lis1 of
        Inl p \<Rightarrow> Inl p
      | Inr lis2 \<Rightarrow>
          (case item lis2 key of
             None \<Rightarrow> Inl NilDereference
           | Some l \<Rightarrow> Inr (Len l, lis2)))"

definition LPush :: "ListIdx \<Rightarrow> string \<Rightarrow> bytes list \<Rightarrow> panic + (int \<times> ListIdx)" where
  "LPush lis key val = push lis True key val"

definition RPush :: "ListIdx \<Rightarrow> string \<Rightarrow> bytes list \<Rightarrow> panic + (int \<times> ListIdx)" where
  "RPush lis key val = push lis False key val"

definition pop :: "ListIdx \<Rightarrow> bool \<Rightarrow> string \<Rightarrow> panic + (bytes \<times> ListIdx)" where
  "pop lis front key =
     (case item lis key of
        None \<Rightarrow> Inr (None, lis)
      | Some l \<Rightarrow>
          if Len l > 0 then
            (case (if front then Front l else Back l) of
               None \<Rightarrow> Inl NilDereference
             | Some e \<Rightarrow> Inr (Value l e, store lis key (Some (RemoveEach l [e]))))
          else Inr (None, lis))"

definition LPop :: "ListIdx \<Rightarrow> string \<Rightarrow> panic + (bytes \<times> ListIdx)" where
  "LPop lis key = pop lis True key"

definition RPop :: "ListIdx \<Rightarrow> string \<Rightarrow> panic + (bytes \<times> ListIdx)" where
  "RPop lis key = pop lis False key"

subsection \<open>Index arithmetic\<close>

definition validIndex :: "ListIdx \<Rightarrow> string \<Rightarrow> int \<Rightarrow> bool \<times> int" where
  "validIndex lis key index =
     (case item lis key of
        None \<Rightarrow> (False, index)
      | Some l \<Rightarrow>
          if Len l \<le> 0 then (False, index)
          else
            (let length' = Len l;
                 index = (if index < 0 then index + length' else index)
             in (index \<ge> 0 \<and> index < length', index)))"

definition handleIndex :: "int \<Rightarrow> int \<Rightarrow> int \<Rightarrow> int \<times> int" where
  "handleIndex length' start end =
     (let start = (if start < 0 then start + length' else start);
          end = (if end < 0 then end + length' else end);
          start = (if start < 0 then 0 else start);
          end = (if end \<ge> length' then length' - 1 else end)
      in (start, end))"

text \<open>The two walks of \<open>index\<close>: \<open>val = val.Next()\<close> and \<open>val = val.Prev()\<close>.\<close>

function index_next :: "bytes list \<Rightarrow> int \<Rightarrow> int \<Rightarrow> pointer \<Rightarrow> panic + pointer" where
  "index_next l index i val =
     (if i < index then
        (case val of
           None \<Rightarrow> Inl NilDereference
         | Some e \<Rightarrow> index_next l index (i + 1) (Next l e))
      else Inr val)"
  by pat_completeness auto
termination
  by (relation "measure (\<lambda>(l, index, i, val). nat (index - i))") auto

function index_prev :: "bytes list \<Rightarrow> int \<Rightarrow> int \<Rightarrow> pointer \<Rightarrow> panic + pointer" where
  "index_prev l index i val =
     (if i > index then
        (case val of
           None \<Rightarrow> Inl NilDereference
         | Some e \<Rightarrow> index_prev l index (i - 1) (Prev l e))
      else Inr val)"
  by pat_completeness auto
termination
  by (relation "measure (\<lambda>(l, index, i, val). nat (i - index))") auto

definition index :: "ListIdx \<Rightarrow> string \<Rightarrow> int \<Rightarrow> panic + pointer" where
  "index lis key idx =
     (let (ok, newIndex) = validIndex lis key idx in
      if \<not> ok then Inr None
      else
        (let idx = newIndex in
         case item lis key of
           None \<Rightarrow> Inr None
         | Some l \<Rightarrow>
             if Len l > 0 then
               (if idx \<le> Len l div 2 then index_next l idx 0 (Front l)
                else index_prev l idx (Len l - 1) (Back l))
             else Inr None))"

definition LIndex :: "ListIdx \<Rightarrow> string \<Rightarrow> int \<Rightarrow> panic + bytes" where
  "LIndex lis key idx =
     (case index lis key idx of
        Inl p \<Rightarrow> Inl p
      | Inr None \<Rightarrow> Inr None
      | Inr (Some e) \<Rightarrow>
          (case item lis key of
             None \<Rightarrow> Inl NilDereference
           | Some l \<Rightarrow> Inr (Value l e)))"

subsection \<open>Cursor loops\<close>

text \<open>
  What is left ahead of a cursor that walks to the tail, and behind one that walks to the
  head: the measures of the traversal loops.
\<close>

definition ahead :: "'a list \<Rightarrow> pointer \<Rightarrow> nat" where
  "ahead l p = (case p of None \<Rightarrow> 0 | Some e \<Rightarrow> Suc (length l - e))"

definition behind :: "pointer \<Rightarrow> nat" where
  "behind p = (case p of None \<Rightarrow> 0 | Some e \<Rightarrow> Suc e)"

subsection \<open>find and LInsert\<close>

text \<open>The loop of \<open>find\<close>; \<open>e = p; break\<close> is the result \<open>Some e\<close>.\<close>

function find_loop :: "bytes list \<Rightarrow> bytes \<Rightarrow> pointer \<Rightarrow> pointer" where
  "find_loop l val p =
     (case p of
        None \<Rightarrow> None
      | Some e \<Rightarrow>
          if sliceOfByteIsEqual (Value l e) val then Some e
          else find_loop l val (Next l e))"
  by pat_completeness auto
termination
  by (relation "measure (\<lambda>(l, val, p). ahead l p)") (auto simp: ahead_def Next_def)

definition find' :: "ListIdx \<Rightarrow> string \<Rightarrow> bytes \<Rightarrow> pointer" where
  "find' lis key val =
     (case item lis key of
        None \<Rightarrow> None
      | Some l \<Rightarrow> find_loop l val (Front l))"

type_synonym InsertOption = "8 word"

definition Before_option :: InsertOption where
  "Before_option = 0"

definition After_option :: InsertOption where
  "After_option = 1"

text \<open>
  The two \<open>if\<close>s of LInsert are kept in sequence as in the source; \<open>Before\<close> and
  \<open>After\<close> differ, so at most one of them inserts and \<open>e\<close> is a position of the list
  it is used on.
\<close>

definition LInsert ::
  "ListIdx \<Rightarrow> string \<Rightarrow> InsertOption \<Rightarrow> bytes \<Rightarrow> bytes \<Rightarrow> panic + (int \<times> ListIdx)" where
  "LInsert lis key option pivot val =
     (case find' lis key pivot of
        None \<Rightarrow> Inr (- 1, lis)
      | Some e \<Rightarrow>
          (case item lis key of
             None \<Rightarrow> Inl NilDereference
           | Some l \<Rightarrow>
               (let l1 = (if option = Before_option then InsertBefore l val e else l);
                    l2 = (if option = After_option then InsertAfter l1 val e else l1)
                in Inr (Len l2, store lis key (Some l2)))))"

subsection \<open>LRem\<close>

text \<open>
  Go's \<open>int\<close> has 64 bits here; \<open>-count\<close> wraps, so the negation of the least integer
  is the least integer.
\<close>

definition wrap_int :: "int \<Rightarrow> int" where
  "wrap_int x = (x + 2 ^ 63) mod 2 ^ 64 - 2 ^ 63"

definition neg_int :: "int \<Rightarrow> int" where
  "neg_int x = wrap_int (- x)"

function LRem_all :: "bytes list \<Rightarrow> bytes \<Rightarrow> pointer \<Rightarrow> Element list \<Rightarrow> Element list" where
  "LRem_all l val p ele =
     (case p of
        None \<Rightarrow> ele
      | Some e \<Rightarrow>
          LRem_all l val (Next l e)
            (if sliceOfByteIsEqual (Value l e) val then ele @ [e] else ele))"
  by pat_completeness auto
termination
  by (relation "measure (\<lambda>(l, val, p, ele). ahead l p)") (auto simp: ahead_def Next_def)

function LRem_head ::
  "bytes list \<Rightarrow> bytes \<Rightarrow> int \<Rightarrow> pointer \<Rightarrow> Element list \<Rightarrow> Element list" where
  "LRem_head l val count p ele =
     (case p of
        None \<Rightarrow> ele
      | Some e \<Rightarrow>
          if int (length ele) < count then
            LRem_head l val count (Next l e)
              (if sliceOfByteIsEqual (Value l e) val then ele @ [e] else ele)
          else ele)"
  by pat_completeness auto
termination
  by (relation "measure (\<lambda>(l, val, count, p, ele). ahead l p)")
     (auto simp: ahead_def Next_def)

function LRem_tail ::
  "bytes list \<Rightarrow> bytes \<Rightarrow> int \<Rightarrow> pointer \<Rightarrow> Element list \<Rightarrow> Element list" where
  "LRem_tail l val count p ele =
     (case p of
        None \<Rightarrow> ele
      | Some e \<Rightarrow>
          if int (length ele) < neg_int count then
            LRem_tail l val count (Prev l e)
              (if sliceOfByteIsEqual (Value l e) val then ele @ [e] else ele)
          else ele)"
  by pat_completeness auto
termination
  by (relation "measure (\<lambda>(l, val, count, p, ele). behind p)")
     (auto simp: behind_def Prev_def)

definition LRem :: "ListIdx \<Rightarrow> string \<Rightarrow> bytes \<Rightarrow> int \<Rightarrow> int \<times> ListIdx" where
  "LRem lis key val count =
     (case item lis key of
        None \<Rightarrow> (0, lis)
      | Some l \<Rightarrow>
          (let ele = [];
               ele = (if count = 0 then LRem_all l val (Front l) ele else ele);
               ele = (if count > 0 then LRem_head l val count (Front l) ele else ele);
               ele = (if count < 0 then LRem_tail l val count (Back l) ele else ele)
           in (int (length ele), store lis key (Some (RemoveEach l ele)))))"

subsection \<open>LRange\<close>

function LRange_head ::
  "bytes list \<Rightarrow> int \<Rightarrow> int \<Rightarrow> pointer \<Rightarrow> int \<Rightarrow> bytes list \<Rightarrow> bytes list" where
  "LRange_head l start end p flag val =
     (case p of
        None \<Rightarrow> val
      | Some e \<Rightarrow>
          if flag \<le> end then
            LRange_head l start end (Next l e) (flag + 1)
              (if flag \<ge> start then val @ [Value l e] else val)
          else val)"
  by pat_completeness auto
termination
  by (relation "measure (\<lambda>(l, start, end, p, flag, val). ahead l p)")
     (auto simp: ahead_def Next_def)

function LRange_tail ::
  "bytes list \<Rightarrow> int \<Rightarrow> int \<Rightarrow> pointer \<Rightarrow> int \<Rightarrow> bytes list \<Rightarrow> bytes list" where
  "LRange_tail l start end p flag val =
     (case p of
        None \<Rightarrow> val
      | Some e \<Rightarrow>
          if flag \<ge> start then
            LRange_tail l start end (Prev l e) (flag - 1)
              (if flag \<le> end then val @ [Value l e] else val)
          else val)"
  by pat_completeness auto
termination
  by (relation "measure (\<lambda>(l, start, end, p, flag, val). behind p)")
     (auto simp: behind_def Prev_def)

text \<open>The swap loop: \<open>for i, j := 0, len(val)-1; i < j; i, j = i+1, j-1\<close>.\<close>

function reverse_loop :: "'a list \<Rightarrow> int \<Rightarrow> int \<Rightarrow> 'a list" where
  "reverse_loop val i j =
     (if i < j then
        reverse_loop (val[nat i := val ! nat j, nat j := val ! nat i]) (i + 1) (j - 1)
      else val)"
  by pat_completeness auto
termination
  by (relation "measure (\<lambda>(val, i, j). nat (j - i))") auto

definition LRange :: "ListIdx \<Rightarrow> string \<Rightarrow> int \<Rightarrow> int \<Rightarrow> bytes list" where
  "LRange lis key start end =
     (case item lis key of
        None \<Rightarrow> []
      | Some l \<Rightarrow>
          if Len l \<le> 0 then []
          else
            (let length' = Len l;
                 (start, end) = handleIndex length' start end
             in if start > end \<or> start \<ge> length' then []
                else
                  (let mid = length' div 2 in
                   if end \<le> mid \<or> end - mid < mid - start then
                     LRange_head l start end (Front l) 0 []
                   else
                     (let val = LRange_tail l start end (Back l) (length' - 1) [] in
                      if int (length val) > 0 then
                        reverse_loop val 0 (int (length val) - 1)
                      else val))))"

subsection \<open>LTrim\<close>

text \<open>
  The three loops of LTrim compare the cursor with an element instead of nil, so a
  cursor that runs off the list is dereferenced: that branch is the panic. The map
  \<open>newValuesMap\<close> of the first loop is local to LTrim and never read; it is left out.
\<close>

function LTrim_copy ::
  "bytes list \<Rightarrow> pointer \<Rightarrow> pointer \<Rightarrow> bytes list \<Rightarrow> panic + bytes list" where
  "LTrim_copy l p stop newList =
     (if p \<noteq> stop then
        (case p of
           None \<Rightarrow> Inl NilDereference
         | Some e \<Rightarrow> LTrim_copy l (Next l e) stop (PushBack newList (Value l e)))
      else Inr newList)"
  by pat_completeness auto
termination
  by (relation "measure (\<lambda>(l, p, stop, newList). ahead l p)")
     (auto simp: ahead_def Next_def)

function LTrim_front ::
  "bytes list \<Rightarrow> pointer \<Rightarrow> pointer \<Rightarrow> Element list \<Rightarrow> panic + Element list" where
  "LTrim_front l p startEle ele =
     (if p \<noteq> startEle then
        (case p of
           None \<Rightarrow> Inl NilDereference
         | Some e \<Rightarrow> LTrim_front l (Next l e) startEle (ele @ [e]))
      else Inr ele)"
  by pat_completeness auto
termination
  by (relation "measure (\<lambda>(l, p, startEle, ele). ahead l p)")
     (auto simp: ahead_def Next_def)

function LTrim_back ::
  "bytes list \<Rightarrow> pointer \<Rightarrow> pointer \<Rightarrow> Element list \<Rightarrow> panic + Element list" where
  "LTrim_back l p endEle ele =
     (if p \<noteq> endEle then
        (case p of
           None \<Rightarrow> Inl NilDereference
         | Some e \<Rightarrow> LTrim_back l (Prev l e) endEle (ele @ [e]))
      else Inr ele)"
  by pat_completeness auto
termination
  by (relation "measure (\<lambda>(l, p, endEle, ele). behind p)")
     (auto simp: behind_def Prev_def)

text \<open>
  The two strategies of LTrim, the branches of \<open>if end-start+1 < (length >> 1)\<close>: build a
  new list from \<open>startEle\<close> to \<open>endEle\<close>, or remove the elements before \<open>startEle\<close> and
  after \<open>endEle\<close> from the list in place. Each returns the list that the key holds afterwards.
\<close>

definition LTrim_rebuild :: "bytes list \<Rightarrow> pointer \<Rightarrow> pointer \<Rightarrow> panic + bytes list" where
  "LTrim_rebuild l startEle endEle =
     (case endEle of
        None \<Rightarrow> Inl NilDereference
      | Some ee \<Rightarrow> LTrim_copy l startEle (Next l ee) [])"

definition LTrim_inplace :: "bytes list \<Rightarrow> pointer \<Rightarrow> pointer \<Rightarrow> panic + bytes list" where
  "LTrim_inplace l startEle endEle =
     (case LTrim_front l (Front l) startEle [] of
        Inl p \<Rightarrow> Inl p
      | Inr ele1 \<Rightarrow>
          (case LTrim_back l (Back l) endEle ele1 of
             Inl p \<Rightarrow> Inl p
           | Inr ele \<Rightarrow> Inr (RemoveEach l ele)))"

definition LTrim :: "ListIdx \<Rightarrow> string \<Rightarrow> int \<Rightarrow> int \<Rightarrow> panic + (bool \<times> ListIdx)" where
  "LTrim lis key start end =
     (case item lis key of
        None \<Rightarrow> Inr (False, lis)
      | Some l \<Rightarrow>
          if Len l \<le> 0 then Inr (False, lis)
          else
            (let length' = Len l;
                 (start, end) = handleIndex length' start end
             in if start \<le> 0 \<and> end \<ge> length' - 1 then Inr (False, lis)
                else if start > end \<or> start \<ge> length' then Inr (True, store lis key None)
                else
                  (case index lis key start of
                     Inl p \<Rightarrow> Inl p
                   | Inr startEle \<Rightarrow>
                       (case index lis key end of
                          Inl p \<Rightarrow> Inl p
                        | Inr endEle \<Rightarrow>
                            (case (if end - start + 1 < length' div 2
                                   then LTrim_rebuild l startEle endEle
                                   else LTrim_inplace l startEle endEle) of
                               Inl p \<Rightarrow> Inl p
                             | Inr newList \<Rightarrow> Inr (True, store lis key (Some newList)))))))"

subsection \<open>DumpIterate\<close>

text \<open>
  Modelled from the spec: the entry handed to the visitor. The storage package
  (\<open>storage.Entry\<close>, \<open>storage.NewEntryNoExtra\<close>) is not part of the sources at hand; the
  specification describes the record as the key, the element and two small integer tags
  that mark it as a push to the tail.
\<close>

record Entry =
  ent_key :: bytes
  ent_value :: bytes
  ent_tag :: nat
  ent_extra :: nat

definition NewEntryNoExtra :: "bytes \<Rightarrow> bytes \<Rightarrow> nat \<Rightarrow> nat \<Rightarrow> Entry" where
  "NewEntryNoExtra k v t m = \<lparr>ent_key = k, ent_value = v, ent_tag = t, ent_extra = m\<rparr>"

text \<open>
  A \<open>dumpFunc\<close> is a closure of the host: it reads the entry, changes the host's state
  \<open>'s\<close>, and returns an error (\<open>Some err\<close>) or nil; like any call it may panic.
\<close>

type_synonym error = string
type_synonym 's dumpFunc = "Entry \<Rightarrow> 's \<Rightarrow> panic + (error option \<times> 's)"

function DumpIterate_list ::
  "'s dumpFunc \<Rightarrow> bytes \<Rightarrow> bytes list \<Rightarrow> pointer \<Rightarrow> 's \<Rightarrow> panic + (error option \<times> 's)" where
  "DumpIterate_list fn listKey l e s =
     (case e of
        None \<Rightarrow> Inr (None, s)
      | Some el \<Rightarrow>
          (let value = Value l el;
               ent = NewEntryNoExtra listKey value 1 1
           in case fn ent s of
                Inl p \<Rightarrow> Inl p
              | Inr r \<Rightarrow>
                  if fst r \<noteq> None then Inr r
                  else DumpIterate_list fn listKey l (Next l el) (snd r)))"
  by pat_completeness auto
termination
  by (relation "measure (\<lambda>(fn, listKey, l, e, s). ahead l e)")
     (auto simp: ahead_def Next_def)

text \<open>
  The order in which \<open>range lis.record\<close> visits the keys is not fixed by Go; it is the
  argument \<open>keys\<close>, an enumeration of the keys of the map. \<open>l.Front()\<close> reads a field of
  \<open>l\<close>, so a nil list under a key is a nil dereference.
\<close>

fun DumpIterate_keys ::
  "ListIdx \<Rightarrow> 's dumpFunc \<Rightarrow> string list \<Rightarrow> 's \<Rightarrow> panic + (error option \<times> 's)" where
  "DumpIterate_keys lis fn [] s = Inr (None, s)"
| "DumpIterate_keys lis fn (key # keys) s =
     (case records lis key of
        None \<Rightarrow> DumpIterate_keys lis fn keys s
      | Some None \<Rightarrow> Inl NilDereference
      | Some (Some l) \<Rightarrow>
          (case DumpIterate_list fn (Some key) l (Front l) s of
             Inl p \<Rightarrow> Inl p
           | Inr r \<Rightarrow>
               if fst r \<noteq> None then Inr r
               else DumpIterate_keys lis fn keys (snd r)))"

definition DumpIterate ::
  "ListIdx \<Rightarrow> string list \<Rightarrow> 's dumpFunc \<Rightarrow> 's \<Rightarrow> panic + (error option \<times> 's)" where
  "DumpIterate lis keys fn s = DumpIterate_keys lis fn keys s"

subsection \<open>Notions of the specification\<close>

text \<open>
  The normalised range of the specification: a negative bound is offset by the length,
  then the start is floored to 0 and the end is capped to the last position.
\<close>

definition norm_start :: "int \<Rightarrow> int \<Rightarrow> int" where
  "norm_start L start = max 0 (if start < 0 then start + L else start)"

definition norm_end :: "int \<Rightarrow> int \<Rightarrow> int" where
  "norm_end L end = min (L - 1) (if end < 0 then end + L else end)"

text \<open>The elements at the positions \<open>s..e\<close> of a list, in their order.\<close>

definition range_of :: "'a list \<Rightarrow> int \<Rightarrow> int \<Rightarrow> 'a list" where
  "range_of l s e = take (nat (e - s + 1)) (drop (nat s) l)"

text \<open>Two slices are equal byte for byte: the same length and the same bytes.\<close>

definition byte_equal :: "bytes \<Rightarrow> bytes \<Rightarrow> bool" where
  "byte_equal a b = (bytes_of a = bytes_of b)"

text \<open>
  The list without the first \<open>k\<close> elements that satisfy \<open>P\<close>, counted from the head, and
  without the last \<open>k\<close>, counted from the tail; fewer when there are fewer.
\<close>

fun remove_first :: "nat \<Rightarrow> ('a \<Rightarrow> bool) \<Rightarrow> 'a list \<Rightarrow> 'a list" where
  "remove_first 0 P xs = xs"
| "remove_first (Suc k) P [] = []"
| "remove_first (Suc k) P (x # xs) =
     (if P x then remove_first k P xs else x # remove_first (Suc k) P xs)"

definition remove_last :: "nat \<Rightarrow> ('a \<Rightarrow> bool) \<Rightarrow> 'a list \<Rightarrow> 'a list" where
  "remove_last k P xs = rev (remove_first k P (rev xs))"

text \<open>
  The logical list of a key, as the operations observe it: empty for an absent key and for
  a nil list.
\<close>

definition logical :: "ListIdx \<Rightarrow> string \<Rightarrow> bytes list" where
  "logical lis key = (case item lis key of None \<Rightarrow> [] | Some l \<Rightarrow> l)"

text \<open>
  The visitor of the round trip: it replays an entry as a push to the tail, under the
  entry's key, into the index that is being rebuilt.
\<close>

definition replay :: "ListIdx dumpFunc" where
  "replay ent lis =
     (case RPush lis (bytes_of (ent_key ent)) [ent_value ent] of
        Inl p \<Rightarrow> Inl p
      | Inr (n, lis') \<Rightarrow> Inr (None, lis'))"

subsection \<open>Example states\<close>

text \<open>The list \<open>a b c d e\<close> and an index that holds it under the key \<open>k\<close>.\<close>

definition abcde :: "bytes list" where
  "abcde = [Some ''a'', Some ''b'', Some ''c'', Some ''d'', Some ''e'']"

definition idx_abcde :: ListIdx where
  "idx_abcde = \<lparr>records = [''k'' \<mapsto> Some abcde]\<rparr>"

section \<open>Properties\<close>

subsection \<open>Elements are positions of their list\<close>

text \<open>
  Every element that the list hands out is a position of the list, so \<open>Value\<close> never
  reads outside it.
\<close>

lemma Front_in_list: "Front l = Some e \<Longrightarrow> e < length l"
  by (auto simp: Front_def split: if_splits)

lemma Back_in_list: "Back l = Some e \<Longrightarrow> e < length l"
  by (auto simp: Back_def split: if_splits)

lemma Next_in_list: "Next l e = Some e' \<Longrightarrow> e' < length l"
  by (auto simp: Next_def split: if_splits)

lemma Prev_in_list: "Prev l e = Some e' \<Longrightarrow> e' < length l"
  by (auto simp: Prev_def split: if_splits)

subsection \<open>Byte equality and the walks of index\<close>

declare sliceOfByteIsEqual_loop.simps [simp del] index_next.simps [simp del] index_prev.simps [simp del]

lemma sliceOfByteIsEqual_loop_drop:
  "0 \<le> i \<Longrightarrow> aLen = len a \<Longrightarrow> len a = len b \<Longrightarrow>
   sliceOfByteIsEqual_loop a b aLen i \<longleftrightarrow> drop (nat i) (bytes_of a) = drop (nat i) (bytes_of b)"
proof (induction a b aLen i rule: sliceOfByteIsEqual_loop.induct)
  case (1 a b aLen i)
  show ?case
  proof (cases "i < aLen")
    case True
    with "1.prems" have ia: "nat i < length (bytes_of a)" and ib: "nat i < length (bytes_of b)"
      by (auto simp: len_def)
    have step: "nat (i + 1) = Suc (nat i)"
      using "1.prems" by simp
    show ?thesis
    proof (cases "at a i = at b i")
      case same: True
      have "sliceOfByteIsEqual_loop a b aLen i = sliceOfByteIsEqual_loop a b aLen (i + 1)"
        using True same by (subst sliceOfByteIsEqual_loop.simps) simp
      also have "\<dots> \<longleftrightarrow> drop (nat (i + 1)) (bytes_of a) = drop (nat (i + 1)) (bytes_of b)"
        using "1.IH" [OF True] same "1.prems" by simp
      also have "\<dots> \<longleftrightarrow> drop (nat i) (bytes_of a) = drop (nat i) (bytes_of b)"
        using same ia ib
        by (simp add: step at_def Cons_nth_drop_Suc [symmetric])
      finally show ?thesis .
    next
      case False
      have "\<not> sliceOfByteIsEqual_loop a b aLen i"
        using True False by (subst sliceOfByteIsEqual_loop.simps) simp
      moreover have "drop (nat i) (bytes_of a) \<noteq> drop (nat i) (bytes_of b)"
        using False ia ib by (auto simp: at_def Cons_nth_drop_Suc [symmetric])
      ultimately show ?thesis by simp
    qed
  next
    case False
    with "1.prems" have "sliceOfByteIsEqual_loop a b aLen i"
      by (subst sliceOfByteIsEqual_loop.simps) simp
    moreover from False "1.prems" have "drop (nat i) (bytes_of a) = []" "drop (nat i) (bytes_of b) = []"
      by (auto simp: len_def)
    ultimately show ?thesis by simp
  qed
qed

lemma sliceOfByteIsEqual_iff: "sliceOfByteIsEqual a b \<longleftrightarrow> bytes_of a = bytes_of b"
proof (cases "len a = len b")
  case True
  then show ?thesis
    using sliceOfByteIsEqual_loop_drop [of 0 "len a" a b]
    by (simp add: sliceOfByteIsEqual_def)
next
  case False
  then show ?thesis
    by (auto simp: sliceOfByteIsEqual_def len_def)
qed

lemma index_next_walk:
  "i \<le> idx \<Longrightarrow> e + nat (idx - i) < length l \<Longrightarrow>
   index_next l idx i (Some e) = Inr (Some (e + nat (idx - i)))"
proof (induction "nat (idx - i)" arbitrary: i e)
  case 0
  then show ?case by (subst index_next.simps) simp
next
  case (Suc n)
  then have lt: "i < idx" and n: "n = nat (idx - (i + 1))" by linarith+
  have nx: "Next l e = Some (Suc e)"
    using Suc.prems Suc.hyps(2) by (simp add: Next_def)
  have "index_next l idx i (Some e) = index_next l idx (i + 1) (Some (Suc e))"
    using lt nx by (subst index_next.simps) simp
  also have "\<dots> = Inr (Some (Suc e + nat (idx - (i + 1))))"
    using Suc.hyps(1) [OF n] Suc.prems Suc.hyps(2) lt by simp
  finally show ?case using Suc.hyps(2) n by simp
qed

lemma index_prev_walk:
  "idx \<le> i \<Longrightarrow> nat (i - idx) \<le> e \<Longrightarrow> e < length l \<Longrightarrow>
   index_prev l idx i (Some e) = Inr (Some (e - nat (i - idx)))"
proof (induction "nat (i - idx)" arbitrary: i e)
  case 0
  then show ?case by (subst index_prev.simps) simp
next
  case (Suc n)
  then have lt: "idx < i" and n: "n = nat (i - 1 - idx)" by linarith+
  have pv: "Prev l e = Some (e - 1)"
    using Suc.prems Suc.hyps(2) by (simp add: Prev_def)
  have "index_prev l idx i (Some e) = index_prev l idx (i - 1) (Some (e - 1))"
    using lt pv by (subst index_prev.simps) simp
  also have "\<dots> = Inr (Some (e - 1 - nat (i - 1 - idx)))"
    using Suc.hyps(1) [OF n] Suc.prems Suc.hyps(2) lt by simp
  finally show ?case using Suc.hyps(2) n by simp
qed

lemma index_in_range:
  assumes "item lis key = Some l" and "0 \<le> i" and "i < Len l"
  shows "index lis key i = Inr (Some (nat i))"
proof -
  from assms have ne: "l \<noteq> []" and pos: "0 < Len l" by (auto simp: Len_def)
  have v: "validIndex lis key i = (True, i)"
    using assms pos by (simp add: validIndex_def)
  show ?thesis
  proof (cases "i \<le> Len l div 2")
    case True
    have "index_next l i 0 (Some 0) = Inr (Some (0 + nat (i - 0)))"
      using assms by (intro index_next_walk) (auto simp: Len_def)
    then show ?thesis
      using assms v pos ne True by (simp add: index_def Front_def)
  next
    case False
    have "index_prev l i (Len l - 1) (Some (length l - 1)) =
          Inr (Some (length l - 1 - nat (Len l - 1 - i)))"
      using assms ne by (intro index_prev_walk) (auto simp: Len_def)
    moreover have "length l - 1 - nat (Len l - 1 - i) = nat i"
      using assms by (auto simp: Len_def)
    ultimately show ?thesis
      using assms v pos ne False by (simp add: index_def Back_def)
  qed
qed

lemma index_negative:
  assumes "item lis key = Some l" and "0 \<le> i" and "i < Len l"
  shows "index lis key (i - Len l) = Inr (Some (nat i))"
proof -
  from assms have ne: "l \<noteq> []" and pos: "0 < Len l" by (auto simp: Len_def)
  have v: "validIndex lis key (i - Len l) = (True, i)"
    using assms pos by (simp add: validIndex_def)
  have v0: "validIndex lis key i = (True, i)"
    using assms pos by (simp add: validIndex_def)
  have "index lis key (i - Len l) = index lis key i"
    by (simp add: index_def v v0)
  then show ?thesis using index_in_range [OF assms] by simp
qed

lemma index_out_of_range:
  assumes "(if i < 0 then i + LLen lis key else i) < 0 \<or>
           LLen lis key \<le> (if i < 0 then i + LLen lis key else i)"
  shows "index lis key i = Inr None"
proof -
  obtain ok j where v: "validIndex lis key i = (ok, j)"
    by (cases "validIndex lis key i")
  then have "\<not> ok"
    using assms by (auto simp: validIndex_def LLen_def Let_def split: option.splits if_splits)
  with v show ?thesis
    by (simp add: index_def)
qed

lemma LIndex_in_range:
  assumes "item lis key = Some l" and "0 \<le> i" and "i < Len l"
  shows "LIndex lis key i = Inr (l ! nat i)"
    and "LIndex lis key (i - Len l) = Inr (l ! nat i)"
  using assms index_in_range [OF assms] index_negative [OF assms]
  by (simp_all add: LIndex_def Value_def)

lemma LIndex_out_of_range:
  assumes "(if i < 0 then i + LLen lis key else i) < 0 \<or>
           LLen lis key \<le> (if i < 0 then i + LLen lis key else i)"
  shows "LIndex lis key i = Inr None"
  using index_out_of_range [OF assms] by (simp add: LIndex_def)

subsection \<open>C6: negative indices alias the non-negative ones\<close>

text \<open>
  C6. For a key whose list has length \<open>L\<close> and an index \<open>i\<close> with \<open>0 \<le> i < L\<close>,
  \<open>LIndex key i\<close> and \<open>LIndex key (i - L)\<close> return the same element, the one at position
  \<open>i\<close>; and for an index whose offset, after \<open>L\<close> is added to a negative one, lies
  outside \<open>[0, L)\<close>, LIndex returns the nil slice. \<open>L\<close> is \<open>LLen\<close>, which is 0 for an
  absent key and for a nil list.
\<close>

theorem LIndex_negative_alias:
  "(0 \<le> i \<and> i < LLen lis key \<longrightarrow>
      LIndex lis key (i - LLen lis key) = LIndex lis key i \<and>
      (\<exists>l. item lis key = Some l \<and> LIndex lis key i = Inr (l ! nat i))) \<and>
   ((if i < 0 then i + LLen lis key else i) < 0 \<or>
    LLen lis key \<le> (if i < 0 then i + LLen lis key else i) \<longrightarrow>
      LIndex lis key i = Inr None)"
proof (intro conjI impI)
  assume r: "0 \<le> i \<and> i < LLen lis key"
  then obtain l where l: "item lis key = Some l" and "i < Len l"
    by (auto simp: LLen_def split: option.splits)
  with r have a: "LIndex lis key i = Inr (l ! nat i)"
    and b: "LIndex lis key (i - Len l) = Inr (l ! nat i)"
    by (auto intro: LIndex_in_range)
  from l have L: "LLen lis key = Len l" by (simp add: LLen_def)
  show "LIndex lis key (i - LLen lis key) = LIndex lis key i"
    using a b L by simp
  show "\<exists>l. item lis key = Some l \<and> LIndex lis key i = Inr (l ! nat i)"
    using a l by blast
next
  assume "(if i < 0 then i + LLen lis key else i) < 0 \<or>
          LLen lis key \<le> (if i < 0 then i + LLen lis key else i)"
  then show "LIndex lis key i = Inr None"
    by (rule LIndex_out_of_range)
qed

theorem LIndex_negative_alias_witness:
  "(0::int) \<le> 1 \<and>
   1 < LLen \<lparr>records = [''k'' \<mapsto> Some [Some ''a'', Some ''b'', Some ''c'']]\<rparr> ''k'' \<and>
   LIndex \<lparr>records = [''k'' \<mapsto> Some [Some ''a'', Some ''b'', Some ''c'']]\<rparr> ''k'' (- 2) = Inr (Some ''b'') \<and>
   LIndex \<lparr>records = [''k'' \<mapsto> Some [Some ''a'', Some ''b'', Some ''c'']]\<rparr> ''k'' 1 = Inr (Some ''b'') \<and>
   LLen \<lparr>records = [''k'' \<mapsto> Some [Some ''a'', Some ''b'', Some ''c'']]\<rparr> ''k'' \<le> 3 \<and>
   LIndex \<lparr>records = [''k'' \<mapsto> Some [Some ''a'', Some ''b'', Some ''c'']]\<rparr> ''k'' 3 = Inr None \<and>
   - 4 + LLen \<lparr>records = [''k'' \<mapsto> Some [Some ''a'', Some ''b'', Some ''c'']]\<rparr> ''k'' < 0 \<and>
   LIndex \<lparr>records = [''k'' \<mapsto> Some [Some ''a'', Some ''b'', Some ''c'']]\<rparr> ''k'' (- 4) = Inr None"
  using LIndex_negative_alias [of 1 "\<lparr>records = [''k'' \<mapsto> Some [Some ''a'', Some ''b'', Some ''c'']]\<rparr>" "''k''"]
    LIndex_negative_alias [of 3 "\<lparr>records = [''k'' \<mapsto> Some [Some ''a'', Some ''b'', Some ''c'']]\<rparr>" "''k''"]
    LIndex_negative_alias [of "- 4" "\<lparr>records = [''k'' \<mapsto> Some [Some ''a'', Some ''b'', Some ''c'']]\<rparr>" "''k''"]
  by (simp add: LLen_def item_def Len_def)

subsection \<open>Stores, and the removal of collected nodes\<close>

lemma handleIndex_norm: "handleIndex L start end = (norm_start L start, norm_end L end)"
  by (auto simp: handleIndex_def norm_start_def norm_end_def Let_def)

lemma foldl_Remove: "foldl Remove nodes ele = filter (\<lambda>n. fst n \<notin> set ele) nodes"
proof (induction ele arbitrary: nodes)
  case Nil
  then show ?case by simp
next
  case (Cons e ele)
  show ?case
    by (simp add: Cons.IH) (auto simp: Remove_def intro: filter_cong)
qed

lemma zip_swap_filter:
  "map snd (filter (\<lambda>n. P (fst n)) (zip is l)) = map fst (filter (\<lambda>n. P (snd n)) (zip l is))"
  by (induction "is" l rule: list_induct2') auto

lemma RemoveEach_nths: "RemoveEach l ele = nths l {i. i \<notin> set ele}"
  unfolding RemoveEach_def foldl_Remove nths_def
  using zip_swap_filter [of "\<lambda>i. i \<notin> set ele" "[0..<length l]" l] by simp

lemma nths_eqI: "(\<And>i. i < length l \<Longrightarrow> i \<in> A \<longleftrightarrow> i \<in> B) \<Longrightarrow> nths l A = nths l B"
  unfolding nths_def
  by (rule arg_cong [where f = "map fst"], rule filter_cong) (auto dest: set_zip_rightD)

lemma RemoveEach_front: "l \<noteq> [] \<Longrightarrow> RemoveEach l [0] = tl l"
  by (cases l) (simp_all add: RemoveEach_nths nths_Cons nths_all)

lemma RemoveEach_back: "l \<noteq> [] \<Longrightarrow> RemoveEach l [length l - 1] = butlast l"
proof (induction l rule: rev_induct)
  case Nil
  then show ?case by simp
next
  case (snoc x xs)
  have "nths xs {i. i \<noteq> length xs} = xs"
    by (rule nths_all) simp
  then show ?case
    by (simp add: RemoveEach_nths nths_append)
qed

lemma item_store: "item (store lis key l) k = (if k = key then l else item lis k)"
  by (simp add: item_def store_def)

lemma records_store: "records (store lis key l) k = (if k = key then Some l else records lis k)"
  by (simp add: store_def)

lemma store_same: "records lis key = Some l \<Longrightarrow> store lis key l = lis"
  by (simp add: store_def fun_upd_idem)

lemma item_Some_records: "item lis key = Some l \<Longrightarrow> records lis key = Some (Some l)"
  by (auto simp: item_def split: option.splits)

subsection \<open>C10: a pop keeps the key's map entry\<close>

text \<open>
  C10. A pop (LPop or RPop, that is \<open>pop\<close> with either value of \<open>front\<close>) never
  removes a map entry: it returns without a panic and every key exists after the call if
  and only if it existed before. After the pop of the only element of a list, the key still
  exists and its length is 0. On a key whose logical list is empty (absent key, nil list or
  empty list) the pop returns the nil slice and leaves the index as it was.
\<close>

theorem pop_keeps_key:
  "(case pop lis front key of
      Inl p \<Rightarrow> False
    | Inr (v, lis') \<Rightarrow> \<forall>k. LKeyExists lis' k = LKeyExists lis k) \<and>
   (item lis key = Some [x] \<longrightarrow>
      pop lis front key = Inr (x, store lis key (Some [])) \<and>
      LKeyExists (store lis key (Some [])) key \<and>
      LLen (store lis key (Some [])) key = 0) \<and>
   (LLen lis key = 0 \<longrightarrow> pop lis front key = Inr (None, lis))"
proof (intro conjI impI)
  show "case pop lis front key of
          Inl p \<Rightarrow> False
        | Inr (v, lis') \<Rightarrow> \<forall>k. LKeyExists lis' k = LKeyExists lis k"
    by (auto simp: pop_def Front_def Back_def Len_def LKeyExists_def records_store
        dest: item_Some_records split: option.splits)
next
  assume one: "item lis key = Some [x]"
  show "pop lis front key = Inr (x, store lis key (Some []))"
    using one RemoveEach_front [of "[x]"]
    by (simp add: pop_def Front_def Back_def Len_def Value_def)
  show "LKeyExists (store lis key (Some [])) key"
    by (simp add: LKeyExists_def records_store)
  show "LLen (store lis key (Some [])) key = 0"
    by (simp add: LLen_def item_store Len_def)
next
  assume "LLen lis key = 0"
  then show "pop lis front key = Inr (None, lis)"
    by (auto simp: pop_def LLen_def Len_def split: option.splits)
qed

theorem pop_keeps_key_witness:
  "item \<lparr>records = [''k'' \<mapsto> Some [Some ''a'']]\<rparr> ''k'' = Some [Some ''a''] \<and>
   pop \<lparr>records = [''k'' \<mapsto> Some [Some ''a'']]\<rparr> False ''k'' =
     Inr (Some ''a'', \<lparr>records = [''k'' \<mapsto> Some []]\<rparr>) \<and>
   LKeyExists \<lparr>records = [''k'' \<mapsto> Some []]\<rparr> ''k'' \<and>
   LLen \<lparr>records = [''k'' \<mapsto> Some []]\<rparr> ''k'' = 0 \<and>
   LLen \<lparr>records = [''k'' \<mapsto> Some []]\<rparr> ''k'' = 0 \<and>
   pop \<lparr>records = [''k'' \<mapsto> Some []]\<rparr> True ''k'' = Inr (None, \<lparr>records = [''k'' \<mapsto> Some []]\<rparr>) \<and>
   LLen New ''j'' = 0 \<and>
   pop New True ''j'' = Inr (None, New)"
  using pop_keeps_key [of "\<lparr>records = [''k'' \<mapsto> Some [Some ''a'']]\<rparr>" False "''k''" "Some ''a''"]
    pop_keeps_key [of "\<lparr>records = [''k'' \<mapsto> Some []]\<rparr>" True "''k''" None]
    pop_keeps_key [of New True "''j''" None]
  by (simp add: item_def store_def LLen_def Len_def New_def)

subsection \<open>C7: a push of no values\<close>

lemma push_no_values:
  "push lis front key [] =
     Inr (LLen lis key, if item lis key = None then store lis key (Some []) else lis)"
  by (auto simp: push_def LLen_def item_store Len_def)

text \<open>
  C7 as stated fails: on the fresh index, \<open>RPush\<close> of no values to the key \<open>k\<close> returns
  the length 0 and creates the key's entry, so \<open>LKeyExists\<close> changes from false to true.
\<close>

theorem push_no_values_counterexample:
  "RPush New ''k'' [] = Inr (0, \<lparr>records = [''k'' \<mapsto> Some []]\<rparr>) \<and>
   \<not> LKeyExists New ''k'' \<and>
   LKeyExists \<lparr>records = [''k'' \<mapsto> Some []]\<rparr> ''k''"
  by (simp add: RPush_def push_def New_def item_def store_def Len_def LKeyExists_def)

text \<open>
  C7, amended. A push of no values returns the current length of the key's logical list.
  It creates the key's map entry, with an empty list, when the key is absent or holds nil,
  and leaves the index as it is otherwise; so the key exists after the call, every key's
  logical list (its length and every range of it) is what it was, and the map entry of every
  other key is unchanged.
\<close>

theorem push_no_values_creates_key:
  "push lis front key [] =
     Inr (LLen lis key, if item lis key = None then store lis key (Some []) else lis) \<and>
   LKeyExists (if item lis key = None then store lis key (Some []) else lis) key \<and>
   (\<forall>k. LLen (if item lis key = None then store lis key (Some []) else lis) k = LLen lis k \<and>
        LRange (if item lis key = None then store lis key (Some []) else lis) k start end =
          LRange lis k start end \<and>
        (k \<noteq> key \<longrightarrow>
           records (if item lis key = None then store lis key (Some []) else lis) k =
             records lis k))"
proof (intro conjI allI impI)
  show "push lis front key [] =
     Inr (LLen lis key, if item lis key = None then store lis key (Some []) else lis)"
    by (rule push_no_values)
  show "LKeyExists (if item lis key = None then store lis key (Some []) else lis) key"
    by (auto simp: LKeyExists_def records_store item_def split: option.splits)
next
  fix k
  show "LLen (if item lis key = None then store lis key (Some []) else lis) k = LLen lis k"
    by (simp add: LLen_def item_store Len_def)
  show "LRange (if item lis key = None then store lis key (Some []) else lis) k start end =
          LRange lis k start end"
    by (simp add: LRange_def item_store Len_def)
  assume "k \<noteq> key"
  then show "records (if item lis key = None then store lis key (Some []) else lis) k =
             records lis k"
    by (simp add: records_store)
qed

theorem push_no_values_creates_key_witness:
  "push \<lparr>records = [''k'' \<mapsto> Some [Some ''a'']]\<rparr> True ''j'' [] =
     Inr (0, \<lparr>records = [''k'' \<mapsto> Some [Some ''a''], ''j'' \<mapsto> Some []]\<rparr>) \<and>
   LKeyExists \<lparr>records = [''k'' \<mapsto> Some [Some ''a''], ''j'' \<mapsto> Some []]\<rparr> ''j'' \<and>
   ''k'' \<noteq> ''j'' \<and>
   records \<lparr>records = [''k'' \<mapsto> Some [Some ''a''], ''j'' \<mapsto> Some []]\<rparr> ''k'' =
     Some (Some [Some ''a''])"
  using push_no_values_creates_key
    [of "\<lparr>records = [''k'' \<mapsto> Some [Some ''a'']]\<rparr>" True "''j''" 0 0]
  by (simp add: item_def store_def LLen_def)

subsection \<open>C2: a trim to the empty range\<close>

text \<open>
  C2. For a key whose list is not empty, if the normalised start is greater than the
  normalised end or not less than the length, LTrim returns true and stores nil under the
  key: the length is 0 afterwards and the key still exists, whereas the key does not exist
  after LClear.
\<close>

theorem LTrim_to_empty:
  assumes "item lis key = Some l" and "l \<noteq> []"
    and "norm_start (Len l) start > norm_end (Len l) end \<or> norm_start (Len l) start \<ge> Len l"
  shows "LTrim lis key start end = Inr (True, store lis key None) \<and>
         LLen (store lis key None) key = 0 \<and>
         LKeyExists (store lis key None) key \<and>
         \<not> LKeyExists (LClear lis key) key"
proof -
  from assms(2) have pos: "0 < Len l" by (simp add: Len_def)
  have nofull: "\<not> (norm_start (Len l) start \<le> 0 \<and> norm_end (Len l) end \<ge> Len l - 1)"
    using assms(3) pos by (auto simp: norm_start_def norm_end_def split: if_splits)
  have "LTrim lis key start end = Inr (True, store lis key None)"
    using assms(1,3) pos nofull by (auto simp: LTrim_def handleIndex_norm)
  moreover have "LLen (store lis key None) key = 0"
    by (simp add: LLen_def item_store)
  moreover have "LKeyExists (store lis key None) key"
    by (simp add: LKeyExists_def records_store)
  moreover have "\<not> LKeyExists (LClear lis key) key"
    by (simp add: LKeyExists_def LClear_def)
  ultimately show ?thesis by simp
qed

theorem LTrim_to_empty_witness:
  "item \<lparr>records = [''k'' \<mapsto> Some [Some ''a'', Some ''b'']]\<rparr> ''k'' = Some [Some ''a'', Some ''b''] \<and>
   norm_start 2 1 > norm_end 2 0 \<and>
   LTrim \<lparr>records = [''k'' \<mapsto> Some [Some ''a'', Some ''b'']]\<rparr> ''k'' 1 0 =
     Inr (True, \<lparr>records = [''k'' \<mapsto> None]\<rparr>) \<and>
   LLen \<lparr>records = [''k'' \<mapsto> None]\<rparr> ''k'' = 0 \<and>
   LKeyExists \<lparr>records = [''k'' \<mapsto> None]\<rparr> ''k'' \<and>
   \<not> LKeyExists (LClear \<lparr>records = [''k'' \<mapsto> Some [Some ''a'', Some ''b'']]\<rparr> ''k'') ''k'' \<and>
   norm_start 2 5 \<ge> 2 \<and>
   LTrim \<lparr>records = [''k'' \<mapsto> Some [Some ''a'', Some ''b'']]\<rparr> ''k'' 5 9 =
     Inr (True, \<lparr>records = [''k'' \<mapsto> None]\<rparr>)"
  using LTrim_to_empty [of "\<lparr>records = [''k'' \<mapsto> Some [Some ''a'', Some ''b'']]\<rparr>" "''k''"
      "[Some ''a'', Some ''b'']" 0 1]
    LTrim_to_empty [of "\<lparr>records = [''k'' \<mapsto> Some [Some ''a'', Some ''b'']]\<rparr>" "''k''"
      "[Some ''a'', Some ''b'']" 9 5]
  by (simp add: item_def store_def Len_def norm_start_def norm_end_def)

subsection \<open>The loop of find\<close>

declare find_loop.simps [simp del]

lemma find_loop_first:
  "e \<le> i \<Longrightarrow> i < length l \<Longrightarrow> byte_equal (l ! i) val \<Longrightarrow>
   (\<And>j. e \<le> j \<Longrightarrow> j < i \<Longrightarrow> \<not> byte_equal (l ! j) val) \<Longrightarrow>
   find_loop l val (Some e) = Some i"
proof (induction "i - e" arbitrary: e)
  case 0
  then have "e = i" by simp
  with 0 show ?case
    by (subst find_loop.simps) (simp add: Value_def sliceOfByteIsEqual_iff byte_equal_def)
next
  case (Suc n)
  then have lt: "e < i" by simp
  then have ne: "\<not> byte_equal (l ! e) val"
    using Suc.prems(4) by simp
  have nx: "Next l e = Some (Suc e)"
    using lt Suc.prems(2) by (simp add: Next_def)
  have "find_loop l val (Some e) = find_loop l val (Some (Suc e))"
    using ne nx by (subst find_loop.simps) (simp add: Value_def sliceOfByteIsEqual_iff byte_equal_def)
  also have "\<dots> = Some i"
    using Suc.hyps(2) lt Suc.prems by (intro Suc.hyps(1)) auto
  finally show ?case .
qed

lemma find_loop_none:
  "e < length l \<Longrightarrow> (\<And>j. e \<le> j \<Longrightarrow> j < length l \<Longrightarrow> \<not> byte_equal (l ! j) val) \<Longrightarrow>
   find_loop l val (Some e) = None"
proof (induction "length l - e" arbitrary: e)
  case 0
  then show ?case by simp
next
  case (Suc n)
  have ne: "\<not> byte_equal (l ! e) val"
    using Suc.prems by simp
  show ?case
  proof (cases "Suc e < length l")
    case True
    have "find_loop l val (Some e) = find_loop l val (Some (Suc e))"
      using ne True
      by (subst find_loop.simps) (simp add: Value_def Next_def sliceOfByteIsEqual_iff byte_equal_def)
    also have "\<dots> = None"
      using Suc.hyps(2) True Suc.prems by (intro Suc.hyps(1)) auto
    finally show ?thesis .
  next
    case False
    have "find_loop l val (Some e) = find_loop l val None"
      using ne False
      by (subst find_loop.simps) (simp add: Value_def Next_def sliceOfByteIsEqual_iff byte_equal_def)
    then show ?thesis by (simp add: find_loop.simps)
  qed
qed

lemma find_first:
  assumes "item lis key = Some l" and "i < length l" and "byte_equal (l ! i) pivot"
    and "\<And>j. j < i \<Longrightarrow> \<not> byte_equal (l ! j) pivot"
  shows "find' lis key pivot = Some i"
proof -
  from assms(2) have "l \<noteq> []" by auto
  then show ?thesis
    using assms find_loop_first [of 0 i l pivot]
    by (simp add: find'_def Front_def)
qed

lemma find_none:
  assumes "\<not> (\<exists>l. item lis key = Some l \<and> (\<exists>x \<in> set l. byte_equal x pivot))"
  shows "find' lis key pivot = None"
proof (cases "item lis key")
  case None
  then show ?thesis by (simp add: find'_def)
next
  case (Some l)
  show ?thesis
  proof (cases "l = []")
    case True
    with Some show ?thesis by (simp add: find'_def Front_def find_loop.simps)
  next
    case False
    have "find_loop l pivot (Some 0) = None"
      using assms Some False by (intro find_loop_none) auto
    with Some False show ?thesis by (simp add: find'_def Front_def)
  qed
qed

lemma Before_After: "Before_option \<noteq> After_option"
  by (simp add: Before_option_def After_option_def)

subsection \<open>C5: LInsert before and after the pivot\<close>

text \<open>
  C5. With the option \<open>Before\<close> or \<open>After\<close>: if the key has no list, or no element of
  its list is byte-equal to the pivot, LInsert returns -1 and the index is unchanged;
  otherwise, with \<open>i\<close> the position of the first element from the head that is byte-equal
  to the pivot, LInsert returns the old length plus one and the list becomes the old one
  with the value inserted just before position \<open>i\<close> (Before) or just after it (After), all
  other elements in their order.
\<close>

theorem LInsert_at_pivot:
  assumes "option = Before_option \<or> option = After_option"
  shows
    "(\<not> (\<exists>l. item lis key = Some l \<and> (\<exists>x \<in> set l. byte_equal x pivot)) \<longrightarrow>
        LInsert lis key option pivot val = Inr (- 1, lis)) \<and>
     (item lis key = Some l \<and> i < length l \<and> byte_equal (l ! i) pivot \<and>
      (\<forall>j < i. \<not> byte_equal (l ! j) pivot) \<longrightarrow>
        LInsert lis key option pivot val =
          Inr (Len l + 1,
               store lis key
                 (Some (if option = Before_option then take i l @ [val] @ drop i l
                        else take (Suc i) l @ [val] @ drop (Suc i) l))))"
proof (intro conjI impI)
  assume "\<not> (\<exists>l. item lis key = Some l \<and> (\<exists>x \<in> set l. byte_equal x pivot))"
  then have "find' lis key pivot = None" by (rule find_none)
  then show "LInsert lis key option pivot val = Inr (- 1, lis)"
    by (simp add: LInsert_def)
next
  assume a: "item lis key = Some l \<and> i < length l \<and> byte_equal (l ! i) pivot \<and>
            (\<forall>j < i. \<not> byte_equal (l ! j) pivot)"
  then have f: "find' lis key pivot = Some i"
    by (intro find_first) auto
  show "LInsert lis key option pivot val =
          Inr (Len l + 1,
               store lis key
                 (Some (if option = Before_option then take i l @ [val] @ drop i l
                        else take (Suc i) l @ [val] @ drop (Suc i) l)))"
    using assms a f Before_After
    by (auto simp: LInsert_def InsertBefore_def InsertAfter_def Len_def)
qed

theorem LInsert_at_pivot_witness:
  "item \<lparr>records = [''k'' \<mapsto> Some [Some ''a'', Some ''b'', Some ''b'']]\<rparr> ''k'' =
     Some [Some ''a'', Some ''b'', Some ''b''] \<and>
   byte_equal ([Some ''a'', Some ''b'', Some ''b''] ! 1) (Some ''b'') \<and>
   \<not> byte_equal ([Some ''a'', Some ''b'', Some ''b''] ! 0) (Some ''b'') \<and>
   LInsert \<lparr>records = [''k'' \<mapsto> Some [Some ''a'', Some ''b'', Some ''b'']]\<rparr> ''k'' Before_option
       (Some ''b'') (Some ''x'') =
     Inr (4, \<lparr>records = [''k'' \<mapsto> Some [Some ''a'', Some ''x'', Some ''b'', Some ''b'']]\<rparr>) \<and>
   LInsert \<lparr>records = [''k'' \<mapsto> Some [Some ''a'', Some ''b'', Some ''b'']]\<rparr> ''k'' After_option
       (Some ''b'') (Some ''x'') =
     Inr (4, \<lparr>records = [''k'' \<mapsto> Some [Some ''a'', Some ''b'', Some ''x'', Some ''b'']]\<rparr>) \<and>
   LInsert \<lparr>records = [''k'' \<mapsto> Some [Some ''a'', Some ''b'', Some ''b'']]\<rparr> ''k'' After_option
       (Some ''z'') (Some ''x'') =
     Inr (- 1, \<lparr>records = [''k'' \<mapsto> Some [Some ''a'', Some ''b'', Some ''b'']]\<rparr>)"
  using LInsert_at_pivot [of Before_option
      "\<lparr>records = [''k'' \<mapsto> Some [Some ''a'', Some ''b'', Some ''b'']]\<rparr>" "''k''" "Some ''b''" "Some ''x''"
      "[Some ''a'', Some ''b'', Some ''b'']" 1]
    LInsert_at_pivot [of After_option
      "\<lparr>records = [''k'' \<mapsto> Some [Some ''a'', Some ''b'', Some ''b'']]\<rparr>" "''k''" "Some ''b''" "Some ''x''"
      "[Some ''a'', Some ''b'', Some ''b'']" 1]
    LInsert_at_pivot [of After_option
      "\<lparr>records = [''k'' \<mapsto> Some [Some ''a'', Some ''b'', Some ''b'']]\<rparr>" "''k''" "Some ''z''" "Some ''x''"
      "[Some ''a'', Some ''b'', Some ''b'']" 1]
  by (simp add: item_def store_def Len_def byte_equal_def bytes_of_def Before_option_def
      After_option_def)

subsection \<open>C9: LInsert with an option that is neither Before nor After\<close>

text \<open>
  C9. When the list of the key contains an element byte-equal to the pivot and the option
  is neither \<open>Before\<close> nor \<open>After\<close>, LInsert inserts nothing: it returns the length of
  the list, not -1, and the index is unchanged.
\<close>

theorem LInsert_other_option:
  assumes "option \<noteq> Before_option" and "option \<noteq> After_option"
    and "item lis key = Some l" and "\<exists>x \<in> set l. byte_equal x pivot"
  shows "LInsert lis key option pivot val = Inr (Len l, lis)"
proof -
  from assms(4) obtain k where k: "k < length l" "byte_equal (l ! k) pivot"
    by (auto simp: in_set_conv_nth)
  define i where "i = (LEAST k. k < length l \<and> byte_equal (l ! k) pivot)"
  have i: "i < length l \<and> byte_equal (l ! i) pivot"
    unfolding i_def using k by (intro LeastI [of "\<lambda>k. k < length l \<and> byte_equal (l ! k) pivot" k]) simp
  have least: "\<not> byte_equal (l ! j) pivot" if "j < i" for j
    using not_less_Least [of j "\<lambda>k. k < length l \<and> byte_equal (l ! k) pivot"] that i
    unfolding i_def by auto
  have "find' lis key pivot = Some i"
    using assms(3) i least by (intro find_first) auto
  then show ?thesis
    using assms(1-3) by (simp add: LInsert_def store_same item_Some_records)
qed

theorem LInsert_other_option_witness:
  "(2 :: InsertOption) \<noteq> Before_option \<and> (2 :: InsertOption) \<noteq> After_option \<and>
   item \<lparr>records = [''k'' \<mapsto> Some [Some ''a'', Some ''b'']]\<rparr> ''k'' = Some [Some ''a'', Some ''b''] \<and>
   (\<exists>x \<in> set [Some ''a'', Some ''b'']. byte_equal x (Some ''b'')) \<and>
   LInsert \<lparr>records = [''k'' \<mapsto> Some [Some ''a'', Some ''b'']]\<rparr> ''k'' 2 (Some ''b'') (Some ''x'') =
     Inr (2, \<lparr>records = [''k'' \<mapsto> Some [Some ''a'', Some ''b'']]\<rparr>)"
  using LInsert_other_option [of 2 "\<lparr>records = [''k'' \<mapsto> Some [Some ''a'', Some ''b'']]\<rparr>" "''k''"
      "[Some ''a'', Some ''b'']" "Some ''b''" "Some ''x''"]
  by (simp add: item_def Len_def byte_equal_def bytes_of_def Before_option_def After_option_def)

subsection \<open>The loops of LRange\<close>

declare LRange_head.simps [simp del] LRange_tail.simps [simp del] reverse_loop.simps [simp del]

lemma nths_map_nth: "nths l A = map ((!) l) (filter (\<lambda>i. i \<in> A) [0..<length l])"
proof (induction l rule: rev_induct)
  case Nil
  then show ?case by simp
next
  case (snoc x xs)
  have "map ((!) (xs @ [x])) (filter (\<lambda>i. i \<in> A) [0..<length xs]) =
        map ((!) xs) (filter (\<lambda>i. i \<in> A) [0..<length xs])"
    by (rule map_cong) (auto simp: nth_append)
  then show ?case
    by (simp add: nths_append snoc.IH nths_Cons)
qed

lemma range_of_nths:
  assumes "0 \<le> s" and "e < int (length l)"
  shows "range_of l s e = nths l {i. s \<le> int i \<and> int i \<le> e}"
proof -
  have "range_of l s e = nths (drop (nat s) l) {..<nat (e - s + 1)}"
    by (simp add: range_of_def)
  also have "\<dots> = nths l ((+) (nat s) ` {..<nat (e - s + 1)})"
    by (rule nths_drop)
  also have "\<dots> = nths l {i. s \<le> int i \<and> int i \<le> e}"
  proof (rule nths_eqI)
    fix i
    assume "i < length l"
    show "i \<in> (+) (nat s) ` {..<nat (e - s + 1)} \<longleftrightarrow> i \<in> {i. s \<le> int i \<and> int i \<le> e}"
    proof
      assume "i \<in> (+) (nat s) ` {..<nat (e - s + 1)}"
      then show "i \<in> {i. s \<le> int i \<and> int i \<le> e}"
        using assms by auto
    next
      assume "i \<in> {i. s \<le> int i \<and> int i \<le> e}"
      then have "i = nat s + (i - nat s)" and "i - nat s < nat (e - s + 1)"
        using assms by auto
      then show "i \<in> (+) (nat s) ` {..<nat (e - s + 1)}"
        by blast
    qed
  qed
  finally show ?thesis .
qed

lemma LRange_head_collect:
  "p < length l \<Longrightarrow>
   LRange_head l s e (Some p) (int p) val =
     val @ map ((!) l) (filter (\<lambda>i. s \<le> int i \<and> int i \<le> e) [p..<length l])"
proof (induction "length l - p" arbitrary: p val)
  case 0
  then show ?case by simp
next
  case (Suc n)
  have upt: "[p..<length l] = p # [Suc p..<length l]"
    using Suc.prems by (simp add: upt_conv_Cons)
  show ?case
  proof (cases "int p \<le> e")
    case False
    have "filter (\<lambda>i. s \<le> int i \<and> int i \<le> e) [p..<length l] = []"
      using False by (auto simp: filter_empty_conv)
    moreover have "LRange_head l s e (Some p) (int p) val = val"
      using False by (subst LRange_head.simps) simp
    ultimately show ?thesis by simp
  next
    case True
    define val' where "val' = (if int p \<ge> s then val @ [Value l p] else val)"
    have step: "LRange_head l s e (Some p) (int p) val =
                LRange_head l s e (Next l p) (int p + 1) val'"
      using True by (subst LRange_head.simps) (simp add: val'_def)
    show ?thesis
    proof (cases "Suc p < length l")
      case lt: True
      have "LRange_head l s e (Some (Suc p)) (int (Suc p)) val' =
            val' @ map ((!) l) (filter (\<lambda>i. s \<le> int i \<and> int i \<le> e) [Suc p..<length l])"
        using Suc.hyps(2) lt by (intro Suc.hyps(1)) auto
      then show ?thesis
        using step lt True upt by (simp add: Next_def val'_def Value_def add.commute)
    next
      case False
      then have nx: "Next l p = None" and up: "[p..<length l] = [p]"
        using Suc.prems upt by (auto simp: Next_def)
      have "LRange_head l s e (Some p) (int p) val = val'"
        using step nx by (simp add: LRange_head.simps)
      then show ?thesis
        using True by (simp add: up val'_def Value_def)
    qed
  qed
qed

lemma LRange_tail_collect:
  "p < length l \<Longrightarrow>
   LRange_tail l s e (Some p) (int p) val =
     val @ map ((!) l) (filter (\<lambda>i. s \<le> int i \<and> int i \<le> e) (rev [0..<Suc p]))"
proof (induction p arbitrary: val)
  case 0
  show ?case
    by (subst LRange_tail.simps) (simp add: Prev_def LRange_tail.simps Value_def)
next
  case (Suc q)
  show ?case
  proof (cases "int (Suc q) \<ge> s")
    case False
    have "filter (\<lambda>i. s \<le> int i \<and> int i \<le> e) (rev [0..<Suc (Suc q)]) = []"
      using False by (auto simp: filter_empty_conv)
    moreover have "LRange_tail l s e (Some (Suc q)) (int (Suc q)) val = val"
      using False by (subst LRange_tail.simps) simp
    ultimately show ?thesis by simp
  next
    case True
    define val' where "val' = (if int (Suc q) \<le> e then val @ [Value l (Suc q)] else val)"
    have "LRange_tail l s e (Some (Suc q)) (int (Suc q)) val =
          LRange_tail l s e (Some q) (int q) val'"
      using True Suc.prems by (subst LRange_tail.simps) (simp add: val'_def Prev_def)
    also have "\<dots> = val' @ map ((!) l) (filter (\<lambda>i. s \<le> int i \<and> int i \<le> e) (rev [0..<Suc q]))"
      using Suc.prems by (intro Suc.IH) simp
    finally show ?thesis
      using True by (simp add: val'_def Value_def)
  qed
qed

lemma reverse_loop_length: "length (reverse_loop val i j) = length val"
proof (induction val i j rule: reverse_loop.induct)
  case (1 val i j)
  show ?case
  proof (cases "i < j")
    case True
    then show ?thesis
      using "1.IH" by (subst reverse_loop.simps) simp
  next
    case False
    then show ?thesis by (subst reverse_loop.simps) simp
  qed
qed

lemma reverse_loop_nth:
  "0 \<le> i \<Longrightarrow> j < int (length val) \<Longrightarrow> k < length val \<Longrightarrow>
   reverse_loop val i j ! k =
     (if i \<le> int k \<and> int k \<le> j then val ! nat (i + j - int k) else val ! k)"
proof (induction val i j rule: reverse_loop.induct)
  case (1 val i j)
  show ?case
  proof (cases "i < j")
    case False
    have "reverse_loop val i j = val"
      using False by (subst reverse_loop.simps) simp
    moreover have "i + j - int k = int k" if "i \<le> int k" "int k \<le> j"
      using that False by linarith
    ultimately show ?thesis by auto
  next
    case True
    define val' where "val' = val[nat i := val ! nat j, nat j := val ! nat i]"
    have len: "length val' = length val" by (simp add: val'_def)
    have step: "reverse_loop val i j = reverse_loop val' (i + 1) (j - 1)"
      using True by (subst reverse_loop.simps) (simp add: val'_def)
    have IH: "reverse_loop val' (i + 1) (j - 1) ! k =
       (if i + 1 \<le> int k \<and> int k \<le> j - 1 then val' ! nat (i + 1 + (j - 1) - int k) else val' ! k)"
      using "1.IH" [OF True] "1.prems" len unfolding val'_def by simp
    have ij: "nat i \<noteq> nat j" "nat i < length val" "nat j < length val"
      using True "1.prems" by auto
    consider "int k = i" | "int k = j" | "i < int k" "int k < j" | "int k < i" | "j < int k"
      by linarith
    then show ?thesis
    proof cases
      case 1
      then have "k = nat i" by simp
      then show ?thesis
        using IH step True ij "1.prems" by (simp add: val'_def)
    next
      case 2
      then have "k = nat j" by simp
      then show ?thesis
        using IH step True ij "1.prems" by (simp add: val'_def)
    next
      case 3
      then have "nat (i + j - int k) \<noteq> nat i" "nat (i + j - int k) \<noteq> nat j"
        using "1.prems" by auto
      then show ?thesis
        using IH step 3 by (simp add: val'_def)
    next
      case 4
      then have "k \<noteq> nat i" "k \<noteq> nat j" using True "1.prems" by auto
      then show ?thesis
        using IH step 4 by (simp add: val'_def)
    next
      case 5
      then have "k \<noteq> nat i" "k \<noteq> nat j" using True "1.prems" by auto
      then show ?thesis
        using IH step 5 True by (simp add: val'_def)
    qed
  qed
qed

lemma reverse_loop_rev: "reverse_loop val 0 (int (length val) - 1) = rev val"
proof (rule nth_equalityI)
  show "length (reverse_loop val 0 (int (length val) - 1)) = length (rev val)"
    by (simp add: reverse_loop_length)
next
  fix k
  assume "k < length (reverse_loop val 0 (int (length val) - 1))"
  then have k: "k < length val" by (simp add: reverse_loop_length)
  then have "nat (int (length val) - 1 - int k) = length val - Suc k"
    by linarith
  then show "reverse_loop val 0 (int (length val) - 1) ! k = rev val ! k"
    using k reverse_loop_nth [of 0 "int (length val) - 1" val k] by (simp add: rev_nth)
qed

lemma LRange_head_slice:
  assumes "0 \<le> s" and "e < int (length l)" and "l \<noteq> []"
  shows "LRange_head l s e (Front l) 0 [] = range_of l s e"
  using assms LRange_head_collect [of 0 l s e "[]"]
  by (simp add: Front_def range_of_nths nths_map_nth)

lemma LRange_tail_slice:
  assumes "0 \<le> s" and "e < int (length l)" and "l \<noteq> []"
  shows "rev (LRange_tail l s e (Back l) (Len l - 1) []) = range_of l s e"
proof -
  from assms(3) have pos: "0 < length l" by simp
  then have flag: "Len l - 1 = int (length l - 1)" and up: "Suc (length l - 1) = length l"
    unfolding Len_def by linarith+
  have "LRange_tail l s e (Back l) (Len l - 1) [] =
        LRange_tail l s e (Some (length l - 1)) (int (length l - 1)) []"
    using assms(3) by (simp only: flag Back_def if_False)
  also have "\<dots> = map ((!) l) (filter (\<lambda>i. s \<le> int i \<and> int i \<le> e) (rev [0..<length l]))"
    using LRange_tail_collect [of "length l - 1" l s e "[]"] pos by (simp only: up) simp
  finally show ?thesis
    using assms by (simp add: range_of_nths nths_map_nth rev_map rev_filter)
qed

subsection \<open>C3: LRange returns the normalised range, head to tail\<close>

text \<open>
  C3. LRange returns the elements at the normalised positions, from the normalised start
  (a negative start offset by the length, then floored to 0) to the normalised end (a
  negative end offset by the length, then capped to the last position), in head-to-tail
  order; it returns the empty result when the key has no non-empty list, when the
  normalised start is greater than the normalised end, or when it is not less than the
  length. Both traversals give that order: for every range \<open>s..e\<close> inside the list, the
  scan from the head, and the scan from the tail followed by the reversal, return the
  elements at \<open>s..e\<close>.
\<close>

theorem LRange_normalised_range:
  "LRange lis key start end =
     (case item lis key of
        None \<Rightarrow> []
      | Some l \<Rightarrow>
          if l = [] \<or> norm_start (Len l) start > norm_end (Len l) end \<or>
             norm_start (Len l) start \<ge> Len l
          then []
          else range_of l (norm_start (Len l) start) (norm_end (Len l) end)) \<and>
   (l \<noteq> [] \<and> 0 \<le> s \<and> e < Len l \<longrightarrow>
      LRange_head l s e (Front l) 0 [] = range_of l s e \<and>
      (let val = LRange_tail l s e (Back l) (Len l - 1) []
       in if int (length val) > 0 then reverse_loop val 0 (int (length val) - 1) else val) =
        range_of l s e)"
proof (intro conjI impI)
  assume a: "l \<noteq> [] \<and> 0 \<le> s \<and> e < Len l"
  then show "LRange_head l s e (Front l) 0 [] = range_of l s e"
    by (intro LRange_head_slice) (auto simp: Len_def)
  have "rev (LRange_tail l s e (Back l) (Len l - 1) []) = range_of l s e"
    using a by (intro LRange_tail_slice) (auto simp: Len_def)
  then show "(let val = LRange_tail l s e (Back l) (Len l - 1) []
       in if int (length val) > 0 then reverse_loop val 0 (int (length val) - 1) else val) =
        range_of l s e"
    by (auto simp: Let_def reverse_loop_rev)
next
  show "LRange lis key start end =
     (case item lis key of
        None \<Rightarrow> []
      | Some l \<Rightarrow>
          if l = [] \<or> norm_start (Len l) start > norm_end (Len l) end \<or>
             norm_start (Len l) start \<ge> Len l
          then []
          else range_of l (norm_start (Len l) start) (norm_end (Len l) end))"
  proof (cases "item lis key")
    case None
    then show ?thesis by (simp add: LRange_def)
  next
    case (Some l)
    show ?thesis
    proof (cases "l = [] \<or> norm_start (Len l) start > norm_end (Len l) end \<or>
             norm_start (Len l) start \<ge> Len l")
      case True
      then show ?thesis
        using Some by (auto simp: LRange_def handleIndex_norm Len_def)
    next
      case False
      let ?s = "norm_start (Len l) start" and ?e = "norm_end (Len l) end"
      from False have ne: "l \<noteq> []" and se: "\<not> (?s > ?e \<or> ?s \<ge> Len l)"
        by auto
      have s0: "0 \<le> ?s" by (simp add: norm_start_def)
      have eL: "?e < int (length l)" by (simp add: norm_end_def Len_def)
      have h: "LRange_head l ?s ?e (Front l) 0 [] = range_of l ?s ?e"
        using s0 eL ne by (rule LRange_head_slice)
      have "rev (LRange_tail l ?s ?e (Back l) (Len l - 1) []) = range_of l ?s ?e"
        using s0 eL ne by (rule LRange_tail_slice)
      then have t: "(let val = LRange_tail l ?s ?e (Back l) (Len l - 1) []
          in if int (length val) > 0 then reverse_loop val 0 (int (length val) - 1) else val) =
           range_of l ?s ?e"
        by (auto simp: Let_def reverse_loop_rev)
      have pos: "\<not> Len l \<le> 0"
        using ne by (simp add: Len_def)
      have "LRange lis key start end = range_of l ?s ?e"
        unfolding LRange_def handleIndex_norm
        by (simp only: Some option.case pos se if_False Let_def prod.case h
            t [unfolded Let_def] if_cancel)
      then show ?thesis
        using Some False by simp
    qed
  qed
qed

theorem LRange_normalised_range_witness:
  "LRange idx_abcde ''k'' 1 3 = [Some ''b'', Some ''c'', Some ''d''] \<and>
   LRange idx_abcde ''k'' (- 5) 1 = [Some ''a'', Some ''b''] \<and>
   LRange idx_abcde ''k'' 3 1 = [] \<and>
   LRange idx_abcde ''k'' 5 9 = [] \<and>
   LRange idx_abcde ''j'' 0 1 = [] \<and>
   abcde \<noteq> [] \<and> (0::int) \<le> 1 \<and> 3 < Len abcde \<and>
   LRange_head abcde 1 3 (Front abcde) 0 [] = [Some ''b'', Some ''c'', Some ''d''] \<and>
   (let val = LRange_tail abcde 1 3 (Back abcde) (Len abcde - 1) []
    in if int (length val) > 0 then reverse_loop val 0 (int (length val) - 1) else val) =
     [Some ''b'', Some ''c'', Some ''d'']"
  using LRange_normalised_range [of idx_abcde "''k''" 1 3 abcde 1 3]
    LRange_normalised_range [of idx_abcde "''k''" "- 5" 1 abcde 1 3]
    LRange_normalised_range [of idx_abcde "''k''" 3 1 abcde 1 3]
    LRange_normalised_range [of idx_abcde "''k''" 5 9 abcde 1 3]
    LRange_normalised_range [of idx_abcde "''j''" 0 1 abcde 1 3]
  by (simp add: idx_abcde_def abcde_def item_def Len_def norm_start_def norm_end_def range_of_def)

subsection \<open>The loops of LTrim\<close>

declare LTrim_copy.simps [simp del] LTrim_front.simps [simp del] LTrim_back.simps [simp del]

lemma LTrim_copy_collect:
  "p \<le> ee \<Longrightarrow> ee < length l \<Longrightarrow>
   LTrim_copy l (Some p) (Next l ee) newList = Inr (newList @ map ((!) l) [p..<Suc ee])"
proof (induction "ee - p" arbitrary: p newList)
  case 0
  then have eq: "p = ee" by simp
  have ne: "Some ee \<noteq> Next l ee" by (simp add: Next_def)
  have "LTrim_copy l (Some ee) (Next l ee) newList =
        LTrim_copy l (Next l ee) (Next l ee) (newList @ [l ! ee])"
    using ne by (subst LTrim_copy.simps) (simp add: PushBack_def Value_def)
  also have "\<dots> = Inr (newList @ [l ! ee])"
    by (subst LTrim_copy.simps) simp
  finally show ?case by (simp add: eq)
next
  case (Suc n)
  then have lt: "p < ee" by simp
  then have ne: "Some p \<noteq> Next l ee" by (simp add: Next_def)
  have nx: "Next l p = Some (Suc p)"
    using lt Suc.prems by (simp add: Next_def)
  have "LTrim_copy l (Some p) (Next l ee) newList =
        LTrim_copy l (Some (Suc p)) (Next l ee) (newList @ [l ! p])"
    using ne nx by (subst LTrim_copy.simps) (simp add: PushBack_def Value_def)
  also have "\<dots> = Inr ((newList @ [l ! p]) @ map ((!) l) [Suc p..<Suc ee])"
    using Suc.hyps(2) lt Suc.prems by (intro Suc.hyps(1)) auto
  finally show ?case
    using lt by (simp add: upt_conv_Cons)
qed

lemma LTrim_front_collect:
  "p \<le> s \<Longrightarrow> s < length l \<Longrightarrow>
   LTrim_front l (Some p) (Some s) ele = Inr (ele @ [p..<s])"
proof (induction "s - p" arbitrary: p ele)
  case 0
  then show ?case by (subst LTrim_front.simps) simp
next
  case (Suc n)
  then have lt: "p < s" by simp
  have nx: "Next l p = Some (Suc p)"
    using lt Suc.prems by (simp add: Next_def)
  have "LTrim_front l (Some p) (Some s) ele = LTrim_front l (Some (Suc p)) (Some s) (ele @ [p])"
    using lt nx by (subst LTrim_front.simps) simp
  also have "\<dots> = Inr ((ele @ [p]) @ [Suc p..<s])"
    using Suc.hyps(2) lt Suc.prems by (intro Suc.hyps(1)) auto
  finally show ?case
    using lt by (simp add: upt_conv_Cons)
qed

lemma LTrim_back_collect:
  "e \<le> p \<Longrightarrow> p < length l \<Longrightarrow>
   LTrim_back l (Some p) (Some e) ele = Inr (ele @ rev [Suc e..<Suc p])"
proof (induction "p - e" arbitrary: p ele)
  case 0
  then show ?case by (subst LTrim_back.simps) simp
next
  case (Suc n)
  then have lt: "e < p" by simp
  have pv: "Prev l p = Some (p - 1)"
    using lt Suc.prems by (simp add: Prev_def)
  have "LTrim_back l (Some p) (Some e) ele = LTrim_back l (Some (p - 1)) (Some e) (ele @ [p])"
    using lt pv by (subst LTrim_back.simps) simp
  also have "\<dots> = Inr ((ele @ [p]) @ rev [Suc e..<Suc (p - 1)])"
    using Suc.hyps(2) lt Suc.prems by (intro Suc.hyps(1)) auto
  finally show ?case
    using lt by simp
qed

lemma map_nth_range_of:
  assumes "0 \<le> s" and "s \<le> e" and "e < int (length l)"
  shows "map ((!) l) [nat s..<Suc (nat e)] = range_of l s e"
proof -
  have "filter (\<lambda>i. s \<le> int i \<and> int i \<le> e) [0..<length l] = [nat s..<Suc (nat e)]"
  proof (rule sorted_distinct_set_unique)
    show "set (filter (\<lambda>i. s \<le> int i \<and> int i \<le> e) [0..<length l]) = set [nat s..<Suc (nat e)]"
      using assms by auto
  qed (simp_all add: sorted_wrt_filter del: upt_Suc)
  then show ?thesis
    using assms by (simp add: range_of_nths nths_map_nth del: upt_Suc)
qed

lemma LTrim_rebuild_range:
  assumes "0 \<le> s" and "s \<le> e" and "e < int (length l)"
  shows "LTrim_rebuild l (Some (nat s)) (Some (nat e)) = Inr (range_of l s e)"
proof -
  have "LTrim_copy l (Some (nat s)) (Next l (nat e)) [] =
        Inr ([] @ map ((!) l) [nat s..<Suc (nat e)])"
    using assms by (intro LTrim_copy_collect) auto
  then show ?thesis
    using assms by (simp add: LTrim_rebuild_def map_nth_range_of del: upt_Suc)
qed

lemma LTrim_inplace_range:
  assumes "0 \<le> s" and "s \<le> e" and "e < int (length l)"
  shows "LTrim_inplace l (Some (nat s)) (Some (nat e)) = Inr (range_of l s e)"
proof -
  from assms have ne: "l \<noteq> []" by auto
  then have up: "Suc (length l - 1) = length l" by simp
  have f: "LTrim_front l (Front l) (Some (nat s)) [] = Inr ([0..<nat s])"
    using assms ne LTrim_front_collect [of 0 "nat s" l "[]"] by (simp add: Front_def)
  have "LTrim_back l (Some (length l - 1)) (Some (nat e)) [0..<nat s] =
        Inr ([0..<nat s] @ rev [Suc (nat e)..<Suc (length l - 1)])"
    using assms ne by (intro LTrim_back_collect) auto
  then have b: "LTrim_back l (Back l) (Some (nat e)) [0..<nat s] =
        Inr ([0..<nat s] @ rev [Suc (nat e)..<length l])"
    using ne by (simp only: up Back_def if_False)
  have "RemoveEach l ([0..<nat s] @ rev [Suc (nat e)..<length l]) =
        nths l {i. s \<le> int i \<and> int i \<le> e}"
    unfolding RemoveEach_nths using assms by (intro nths_eqI) auto
  then show ?thesis
    using assms f b by (simp add: LTrim_inplace_def range_of_nths)
qed

subsection \<open>C1: LTrim keeps the normalised range\<close>

text \<open>
  C1. For a key whose list \<open>l\<close> has length \<open>L\<close>: if the normalised range \<open>s..e\<close> (a
  negative bound offset by \<open>L\<close>, the start floored to 0, the end capped to \<open>L - 1\<close>) is
  not empty, starts inside the list and does not cover the whole list, LTrim returns true
  and the key holds exactly the elements that were at the positions \<open>s..e\<close>, in their
  order; each of the two strategies, the new list and the removal in place, yields those
  elements. If the normalised range covers the whole list, LTrim returns false and the
  index is unchanged.
\<close>

theorem LTrim_keeps_range:
  "(item lis key = Some l \<and> s = norm_start (Len l) start \<and> e = norm_end (Len l) end \<and>
    s \<le> e \<and> s < Len l \<and> \<not> (s \<le> 0 \<and> Len l - 1 \<le> e) \<longrightarrow>
      LTrim lis key start end = Inr (True, store lis key (Some (range_of l s e))) \<and>
      LTrim_rebuild l (Some (nat s)) (Some (nat e)) = Inr (range_of l s e) \<and>
      LTrim_inplace l (Some (nat s)) (Some (nat e)) = Inr (range_of l s e)) \<and>
   (norm_start (LLen lis key) start \<le> 0 \<and>
    LLen lis key - 1 \<le> norm_end (LLen lis key) end \<longrightarrow>
      LTrim lis key start end = Inr (False, lis))"
proof (intro conjI impI)
  assume a: "item lis key = Some l \<and> s = norm_start (Len l) start \<and>
    e = norm_end (Len l) end \<and> s \<le> e \<and> s < Len l \<and> \<not> (s \<le> 0 \<and> Len l - 1 \<le> e)"
  then have it: "item lis key = Some l" and s: "norm_start (Len l) start = s"
    and e: "norm_end (Len l) end = e" and se: "s \<le> e" "s < Len l"
    and proper: "\<not> (s \<le> 0 \<and> e \<ge> Len l - 1)"
    by auto
  have s0: "0 \<le> s" using s by (auto simp: norm_start_def)
  have eL: "e < int (length l)" using e by (auto simp: norm_end_def Len_def)
  have pos: "\<not> Len l \<le> 0" using se s0 by simp
  have e0: "0 \<le> e" "e < Len l" using s0 se eL by (auto simp: Len_def)
  show r: "LTrim_rebuild l (Some (nat s)) (Some (nat e)) = Inr (range_of l s e)"
    using s0 se(1) eL by (rule LTrim_rebuild_range)
  show i: "LTrim_inplace l (Some (nat s)) (Some (nat e)) = Inr (range_of l s e)"
    using s0 se(1) eL by (rule LTrim_inplace_range)
  have idx_s: "index lis key s = Inr (Some (nat s))"
    using it s0 se(2) by (rule index_in_range)
  have ie: "index lis key e = Inr (Some (nat e))"
    using it e0 by (rule index_in_range)
  have nonempty: "\<not> (s > e \<or> s \<ge> Len l)" using se by simp
  show "LTrim lis key start end = Inr (True, store lis key (Some (range_of l s e)))"
    unfolding LTrim_def handleIndex_norm
    by (simp only: it option.case pos if_False Let_def s e prod.case proper nonempty idx_s ie
        sum.case r i if_cancel)
next
  assume full: "norm_start (LLen lis key) start \<le> 0 \<and>
    LLen lis key - 1 \<le> norm_end (LLen lis key) end"
  show "LTrim lis key start end = Inr (False, lis)"
  proof (cases "item lis key")
    case None
    then show ?thesis by (simp add: LTrim_def)
  next
    case (Some l)
    then have "LLen lis key = Len l" by (simp add: LLen_def)
    with full Some show ?thesis
      by (simp add: LTrim_def handleIndex_norm)
  qed
qed

theorem LTrim_keeps_range_witness:
  "item idx_abcde ''k'' = Some abcde \<and>
   norm_start (Len abcde) 1 = 1 \<and> norm_end (Len abcde) (- 4) = 1 \<and>
   LTrim idx_abcde ''k'' 1 (- 4) = Inr (True, \<lparr>records = [''k'' \<mapsto> Some [Some ''b'']]\<rparr>) \<and>
   LTrim_rebuild abcde (Some 1) (Some 1) = Inr [Some ''b''] \<and>
   LTrim_inplace abcde (Some 1) (Some 1) = Inr [Some ''b''] \<and>
   norm_start (Len abcde) (- 9) = 0 \<and> norm_end (Len abcde) 3 = 3 \<and>
   LTrim idx_abcde ''k'' (- 9) 3 =
     Inr (True, \<lparr>records = [''k'' \<mapsto> Some [Some ''a'', Some ''b'', Some ''c'', Some ''d'']]\<rparr>) \<and>
   norm_start (LLen idx_abcde ''k'') 0 \<le> 0 \<and>
   LLen idx_abcde ''k'' - 1 \<le> norm_end (LLen idx_abcde ''k'') 7 \<and>
   LTrim idx_abcde ''k'' 0 7 = Inr (False, idx_abcde)"
  using LTrim_keeps_range [of idx_abcde "''k''" abcde 1 1 1 "- 4"]
    LTrim_keeps_range [of idx_abcde "''k''" abcde 0 "- 9" 3 3]
    LTrim_keeps_range [of idx_abcde "''k''" abcde 0 0 4 7]
  by (simp add: idx_abcde_def abcde_def item_def store_def Len_def LLen_def norm_start_def
      norm_end_def range_of_def)

subsection \<open>The loops of LRem\<close>

declare LRem_all.simps [simp del] LRem_head.simps [simp del] LRem_tail.simps [simp del]

lemma neg_int_in_range: "- (2 ^ 63) < x \<Longrightarrow> x < 2 ^ 63 \<Longrightarrow> neg_int x = - x"
  by (simp add: neg_int_def wrap_int_def)

lemma neg_int_least: "neg_int (- (2 ^ 63)) = - (2 ^ 63)"
  by (simp add: neg_int_def wrap_int_def)

lemma LRem_all_collect:
  "p < length l \<Longrightarrow>
   LRem_all l val (Some p) ele = ele @ filter (\<lambda>i. byte_equal (l ! i) val) [p..<length l]"
proof (induction "length l - p" arbitrary: p ele)
  case 0
  then show ?case by simp
next
  case (Suc n)
  define ele' where "ele' = (if byte_equal (l ! p) val then ele @ [p] else ele)"
  have upt: "[p..<length l] = p # [Suc p..<length l]"
    using Suc.prems by (simp add: upt_conv_Cons)
  have step: "LRem_all l val (Some p) ele = LRem_all l val (Next l p) ele'"
    by (subst LRem_all.simps)
      (simp add: ele'_def Value_def sliceOfByteIsEqual_iff byte_equal_def)
  show ?case
  proof (cases "Suc p < length l")
    case True
    have "LRem_all l val (Some (Suc p)) ele' =
          ele' @ filter (\<lambda>i. byte_equal (l ! i) val) [Suc p..<length l]"
      using Suc.hyps(2) True by (intro Suc.hyps(1)) auto
    then show ?thesis
      using step True upt by (simp add: Next_def ele'_def)
  next
    case False
    then have nx: "Next l p = None" and up: "[p..<length l] = [p]"
      using Suc.prems upt by (auto simp: Next_def)
    have "LRem_all l val (Some p) ele = ele'"
      using step nx by (simp add: LRem_all.simps)
    then show ?thesis
      by (simp add: up ele'_def)
  qed
qed

lemma LRem_head_collect:
  "p < length l \<Longrightarrow>
   LRem_head l val count (Some p) ele =
     ele @ take (nat (count - int (length ele)))
             (filter (\<lambda>i. byte_equal (l ! i) val) [p..<length l])"
proof (induction "length l - p" arbitrary: p ele)
  case 0
  then show ?case by simp
next
  case (Suc n)
  show ?case
  proof (cases "int (length ele) < count")
    case False
    then have "LRem_head l val count (Some p) ele = ele"
      by (subst LRem_head.simps) simp
    with False show ?thesis by simp
  next
    case more: True
    define ele' where "ele' = (if byte_equal (l ! p) val then ele @ [p] else ele)"
    have upt: "[p..<length l] = p # [Suc p..<length l]"
      using Suc.prems by (simp add: upt_conv_Cons)
    have step: "LRem_head l val count (Some p) ele = LRem_head l val count (Next l p) ele'"
      using more by (subst LRem_head.simps)
        (simp add: ele'_def Value_def sliceOfByteIsEqual_iff byte_equal_def)
    have tk: "take (nat (count - int (length ele))) (p # xs) =
              p # take (nat (count - int (length ele) - 1)) xs" for xs
      using more by (cases "nat (count - int (length ele))") (auto simp: nat_diff_distrib)
    show ?thesis
    proof (cases "Suc p < length l")
      case True
      have "LRem_head l val count (Some (Suc p)) ele' =
            ele' @ take (nat (count - int (length ele')))
                     (filter (\<lambda>i. byte_equal (l ! i) val) [Suc p..<length l])"
        using Suc.hyps(2) True by (intro Suc.hyps(1)) auto
      then show ?thesis
        using step True upt tk by (simp add: Next_def ele'_def algebra_simps)
    next
      case False
      then have nx: "Next l p = None" and up: "[p..<length l] = [p]"
        using Suc.prems upt by (auto simp: Next_def)
      have "LRem_head l val count (Some p) ele = ele'"
        using step nx by (simp add: LRem_head.simps)
      then show ?thesis
        using tk [of "[]"] by (simp add: up ele'_def)
    qed
  qed
qed

lemma LRem_tail_collect:
  "p < length l \<Longrightarrow>
   LRem_tail l val count (Some p) ele =
     ele @ take (nat (neg_int count - int (length ele)))
             (filter (\<lambda>i. byte_equal (l ! i) val) (rev [0..<Suc p]))"
proof (induction p arbitrary: ele)
  case 0
  show ?case
  proof (cases "int (length ele) < neg_int count")
    case False
    then have "LRem_tail l val count (Some 0) ele = ele"
      by (subst LRem_tail.simps) simp
    with False show ?thesis by simp
  next
    case True
    then have "0 < nat (neg_int count - int (length ele))" by simp
    then obtain m where m: "nat (neg_int count - int (length ele)) = Suc m"
      by (cases "nat (neg_int count - int (length ele))") auto
    show ?thesis
      using True
      by (subst LRem_tail.simps)
        (simp add: Prev_def LRem_tail.simps Value_def sliceOfByteIsEqual_iff byte_equal_def m)
  qed
next
  case (Suc q)
  show ?case
  proof (cases "int (length ele) < neg_int count")
    case False
    then have "LRem_tail l val count (Some (Suc q)) ele = ele"
      by (subst LRem_tail.simps) simp
    with False show ?thesis by simp
  next
    case more: True
    define ele' where "ele' = (if byte_equal (l ! Suc q) val then ele @ [Suc q] else ele)"
    have step: "LRem_tail l val count (Some (Suc q)) ele = LRem_tail l val count (Some q) ele'"
      using more Suc.prems by (subst LRem_tail.simps)
        (simp add: ele'_def Value_def Prev_def sliceOfByteIsEqual_iff byte_equal_def)
    have tk: "take (nat (neg_int count - int (length ele))) (Suc q # xs) =
              Suc q # take (nat (neg_int count - int (length ele) - 1)) xs" for xs
      using more by (cases "nat (neg_int count - int (length ele))") (auto simp: nat_diff_distrib)
    have "LRem_tail l val count (Some q) ele' =
          ele' @ take (nat (neg_int count - int (length ele')))
                   (filter (\<lambda>i. byte_equal (l ! i) val) (rev [0..<Suc q]))"
      using Suc.prems by (intro Suc.IH) simp
    then show ?thesis
      using step tk by (simp add: ele'_def algebra_simps)
  qed
qed

subsection \<open>Removing the collected positions\<close>

lemma match_positions_Cons:
  "filter (\<lambda>i. P ((x # xs) ! i)) [0..<length (x # xs)] =
     (if P x then [0] else []) @ map Suc (filter (\<lambda>i. P (xs ! i)) [0..<length xs])"
proof -
  have "[0..<length (x # xs)] = 0 # map Suc [0..<length xs]"
    by (simp add: upt_conv_Cons map_Suc_upt del: upt_Suc)
  then show ?thesis
    by (simp add: filter_map comp_def del: upt_Suc)
qed

lemma nths_without_first:
  "nths l {i. i \<notin> set (take k (filter (\<lambda>i. P (l ! i)) [0..<length l]))} = remove_first k P l"
proof (induction l arbitrary: k)
  case Nil
  show ?case by (cases k) simp_all
next
  case (Cons x xs)
  let ?F = "filter (\<lambda>i. P (xs ! i)) [0..<length xs]"
  let ?G = "filter (\<lambda>i. P ((x # xs) ! i)) [0..<length (x # xs)]"
  show ?case
  proof (cases k)
    case 0
    then show ?thesis by (simp add: nths_all)
  next
    case (Suc k')
    show ?thesis
    proof (cases "P x")
      case True
      have "set (take (Suc k') ?G) = insert 0 (Suc ` set (take k' ?F))"
        by (subst match_positions_Cons) (simp add: True take_map)
      then have "nths (x # xs) {i. i \<notin> set (take (Suc k') ?G)} =
                 nths xs {j. Suc j \<notin> insert 0 (Suc ` set (take k' ?F))}"
        by (simp only: nths_Cons) simp
      also have "{j. Suc j \<notin> insert 0 (Suc ` set (take k' ?F))} = {j. j \<notin> set (take k' ?F)}"
        by auto
      finally show ?thesis
        using True Suc Cons.IH [of k'] by simp
    next
      case False
      have "set (take (Suc k') ?G) = Suc ` set (take (Suc k') ?F)"
        by (subst match_positions_Cons) (simp add: False take_map del: take_Suc_Cons)
      then have "nths (x # xs) {i. i \<notin> set (take (Suc k') ?G)} =
                 x # nths xs {j. Suc j \<notin> Suc ` set (take (Suc k') ?F)}"
        by (simp only: nths_Cons) auto
      also have "{j. Suc j \<notin> Suc ` set (take (Suc k') ?F)} = {j. j \<notin> set (take (Suc k') ?F)}"
        by auto
      finally show ?thesis
        using False Suc Cons.IH [of "Suc k'"] by simp
    qed
  qed
qed

lemma nths_rev: "nths (rev l) A = rev (nths l {i. i < length l \<and> length l - Suc i \<in> A})"
proof (induction l arbitrary: A)
  case Nil
  show ?case by simp
next
  case (Cons x xs)
  have "{j. Suc j < Suc (length xs) \<and> length xs - Suc j \<in> A} =
        {i. i < length xs \<and> length xs - Suc i \<in> A}"
    by auto
  then show ?case
    by (simp add: nths_append nths_Cons Cons.IH)
qed

lemma rev_upt_mirror: "rev [0..<n] = map (\<lambda>i. n - Suc i) [0..<n]"
  by (rule nth_equalityI) (simp_all add: rev_nth)

lemma match_positions_rev:
  "rev (filter (\<lambda>i. P (l ! i)) [0..<length l]) =
     map (\<lambda>i. length l - Suc i) (filter (\<lambda>i. P (rev l ! i)) [0..<length l])"
proof -
  have "rev (filter (\<lambda>i. P (l ! i)) [0..<length l]) =
        map (\<lambda>i. length l - Suc i) (filter (\<lambda>i. P (l ! (length l - Suc i))) [0..<length l])"
    by (simp add: rev_filter rev_upt_mirror filter_map comp_def)
  also have "filter (\<lambda>i. P (l ! (length l - Suc i))) [0..<length l] =
             filter (\<lambda>i. P (rev l ! i)) [0..<length l]"
    by (rule filter_cong) (simp_all add: rev_nth)
  finally show ?thesis .
qed

lemma nths_without_last:
  "nths l {i. i \<notin> set (take k (rev (filter (\<lambda>i. P (l ! i)) [0..<length l])))} =
     remove_last k P l"
proof -
  let ?n = "length l"
  let ?F = "filter (\<lambda>i. P (rev l ! i)) [0..<?n]"
  have "remove_first k P (rev l) = nths (rev l) {i. i \<notin> set (take k ?F)}"
    using nths_without_first [of "rev l" k P] by simp
  also have "\<dots> = rev (nths l {i. i < ?n \<and> ?n - Suc i \<in> {i. i \<notin> set (take k ?F)}})"
    by (rule nths_rev)
  finally have "remove_last k P l = nths l {i. i < ?n \<and> ?n - Suc i \<notin> set (take k ?F)}"
    by (simp add: remove_last_def)
  also have "\<dots> = nths l {i. i \<notin> set (take k (rev (filter (\<lambda>i. P (l ! i)) [0..<?n])))}"
  proof (rule nths_eqI)
    fix i
    assume i: "i < ?n"
    have sub: "set (take k ?F) \<subseteq> {..<?n}"
      using set_take_subset [of k ?F] by auto
    have "i \<in> (\<lambda>i. ?n - Suc i) ` set (take k ?F) \<longleftrightarrow> ?n - Suc i \<in> set (take k ?F)"
    proof
      assume "i \<in> (\<lambda>i. ?n - Suc i) ` set (take k ?F)"
      then obtain j where j: "j \<in> set (take k ?F)" "i = ?n - Suc j" by auto
      with sub have "j < ?n" by auto
      with j(2) have "?n - Suc i = j" by simp
      with j(1) show "?n - Suc i \<in> set (take k ?F)" by simp
    next
      assume m: "?n - Suc i \<in> set (take k ?F)"
      have "i = ?n - Suc (?n - Suc i)" using i by simp
      with m show "i \<in> (\<lambda>i. ?n - Suc i) ` set (take k ?F)" by blast
    qed
    then show "i \<in> {i. i < ?n \<and> ?n - Suc i \<notin> set (take k ?F)} \<longleftrightarrow>
               i \<in> {i. i \<notin> set (take k (rev (filter (\<lambda>i. P (l ! i)) [0..<?n])))}"
      using i by (simp add: match_positions_rev take_map)
  qed
  finally show ?thesis by simp
qed

lemma match_positions_filter:
  "map ((!) l) (filter (\<lambda>i. P (l ! i)) [0..<length l]) = filter P l"
proof -
  have "filter P (map ((!) l) [0..<length l]) =
        map ((!) l) (filter (\<lambda>i. P (l ! i)) [0..<length l])"
    by (simp add: filter_map comp_def)
  then show ?thesis by (simp add: map_nth)
qed

lemma match_positions_length:
  "length (filter (\<lambda>i. P (l ! i)) [0..<length l]) = length (filter P l)"
  using arg_cong [OF match_positions_filter [of l P], of length] by simp

lemma nths_without_all:
  "nths l {i. i \<notin> set (filter (\<lambda>i. P (l ! i)) [0..<length l])} = filter (\<lambda>x. \<not> P x) l"
proof -
  have "nths l {i. i \<notin> set (filter (\<lambda>i. P (l ! i)) [0..<length l])} =
        map ((!) l) (filter (\<lambda>i. \<not> P (l ! i)) [0..<length l])"
    unfolding nths_map_nth by (rule arg_cong [where f = "map ((!) l)"], rule filter_cong) auto
  then show ?thesis
    using match_positions_filter [of l "\<lambda>x. \<not> P x"] by simp
qed

lemma LRem_selected:
  assumes "item lis key = Some l" and "- (2 ^ 63) < count" and "count < 2 ^ 63"
  shows "LRem lis key val count =
     (if count = 0 then
        (int (length (filter (\<lambda>x. byte_equal x val) l)),
         store lis key (Some (filter (\<lambda>x. \<not> byte_equal x val) l)))
      else if count > 0 then
        (min count (int (length (filter (\<lambda>x. byte_equal x val) l))),
         store lis key (Some (remove_first (nat count) (\<lambda>x. byte_equal x val) l)))
      else
        (min (- count) (int (length (filter (\<lambda>x. byte_equal x val) l))),
         store lis key (Some (remove_last (nat (- count)) (\<lambda>x. byte_equal x val) l))))"
proof -
  let ?P = "\<lambda>x. byte_equal x val"
  let ?F = "filter (\<lambda>i. ?P (l ! i)) [0..<length l]"
  have all: "LRem_all l val (Front l) [] = ?F"
    using LRem_all_collect [of 0 l val "[]"] by (cases "l = []") (simp_all add: Front_def LRem_all.simps)
  have head: "LRem_head l val count (Front l) [] = take (nat count) ?F"
    using LRem_head_collect [of 0 l val count "[]"]
    by (cases "l = []") (simp_all add: Front_def LRem_head.simps)
  have tail: "LRem_tail l val count (Back l) [] = take (nat (- count)) (rev ?F)"
  proof (cases "l = []")
    case True
    then show ?thesis by (simp add: Back_def LRem_tail.simps)
  next
    case False
    then have "Suc (length l - 1) = length l" by simp
    then show ?thesis
      using False LRem_tail_collect [of "length l - 1" l val count "[]"] assms(2,3)
      by (simp add: Back_def neg_int_in_range rev_filter)
  qed
  have r_all: "RemoveEach l ?F = filter (\<lambda>x. \<not> ?P x) l"
    unfolding RemoveEach_nths by (rule nths_without_all [of l ?P])
  have r_head: "RemoveEach l (take (nat count) ?F) = remove_first (nat count) ?P l"
    unfolding RemoveEach_nths by (rule nths_without_first [of l "nat count" ?P])
  have r_tail: "RemoveEach l (take (nat (- count)) (rev ?F)) = remove_last (nat (- count)) ?P l"
    unfolding RemoveEach_nths by (rule nths_without_last [of l "nat (- count)" ?P])
  have n: "length ?F = length (filter ?P l)"
    by (rule match_positions_length)
  consider "count = 0" | "count > 0" | "count < 0" by linarith
  then show ?thesis
  proof cases
    case 1
    then show ?thesis
      using assms(1) by (simp add: LRem_def all r_all n)
  next
    case 2
    have "LRem lis key val count =
          (int (length (take (nat count) ?F)),
           store lis key (Some (RemoveEach l (take (nat count) ?F))))"
      using assms(1) 2 by (simp add: LRem_def head Let_def del: length_take)
    moreover have "int (length (take (nat count) ?F)) = min count (int (length (filter ?P l)))"
      using 2 n by simp
    ultimately show ?thesis
      using 2 by (simp only: r_head) simp
  next
    case 3
    have "LRem lis key val count =
          (int (length (take (nat (- count)) (rev ?F))),
           store lis key (Some (RemoveEach l (take (nat (- count)) (rev ?F)))))"
      using assms(1) 3 by (simp add: LRem_def tail Let_def del: length_take)
    moreover have "int (length (take (nat (- count)) (rev ?F))) =
                   min (- count) (int (length (filter ?P l)))"
      using 3 n by simp
    ultimately show ?thesis
      using 3 by (simp only: r_tail) simp
  qed
qed

lemma LRem_no_list: "item lis key = None \<Longrightarrow> LRem lis key val count = (0, lis)"
  by (simp add: LRem_def)

subsection \<open>C4: LRem and the least count\<close>

lemma remove_first_Nil: "remove_first k P [] = []"
  by (cases k) simp_all

lemma remove_last_single: "0 < k \<Longrightarrow> P x \<Longrightarrow> remove_last k P [x] = []"
  by (cases k) (simp_all add: remove_last_def remove_first_Nil)

text \<open>
  C4. LRem is to remove the occurrences of the value that the count selects: all of them
  for 0, the first \<open>min c n\<close> from the head for a positive count \<open>c\<close>, the last
  \<open>min |c| n\<close> from the tail for a negative one, where \<open>n\<close> is the number of matches, and
  to return the number removed. The code does so for every count but the least integer
  (\<open>LRem_selected\<close>). At the count \<open>-2^63\<close> the negation \<open>-count\<close> wraps to \<open>-2^63\<close>,
  the loop condition \<open>len(ele) < -count\<close> is false from the start, and LRem removes nothing
  and returns 0, on a list whose only element matches: the claim asks for the removal of
  that element (\<open>remove_last\<close> gives the empty list) and for the result 1.
\<close>

theorem LRem_least_count_removes_nothing:
  "LRem \<lparr>records = [''k'' \<mapsto> Some [Some ''a'']]\<rparr> ''k'' (Some ''a'') (- (2 ^ 63)) =
     (0, \<lparr>records = [''k'' \<mapsto> Some [Some ''a'']]\<rparr>) \<and>
   remove_last (nat (2 ^ 63)) (\<lambda>x. byte_equal x (Some ''a'')) [Some ''a''] = [] \<and>
   min (2 ^ 63) (int (length (filter (\<lambda>x. byte_equal x (Some ''a'')) [Some ''a'']))) = 1"
proof -
  have "LRem_tail [Some ''a''] (Some ''a'') (- (2 ^ 63)) (Some 0) [] = []"
    by (subst LRem_tail.simps) (simp add: neg_int_def wrap_int_def)
  then have "LRem \<lparr>records = [''k'' \<mapsto> Some [Some ''a'']]\<rparr> ''k'' (Some ''a'') (- (2 ^ 63)) =
     (0, \<lparr>records = [''k'' \<mapsto> Some [Some ''a'']]\<rparr>)"
    by (simp add: LRem_def item_def Back_def store_def RemoveEach_def)
  moreover have "remove_last (nat (2 ^ 63)) (\<lambda>x. byte_equal x (Some ''a'')) [Some ''a''] = []"
    by (rule remove_last_single) (simp_all add: byte_equal_def)
  ultimately show ?thesis
    by (simp add: byte_equal_def)
qed

subsection \<open>DumpIterate and the replay\<close>

declare DumpIterate_list.simps [simp del]

lemma logical_store: "logical (store lis key l) k =
    (if k = key then (case l of None \<Rightarrow> [] | Some xs \<Rightarrow> xs) else logical lis k)"
  by (simp add: logical_def item_store)

lemma store_store: "store (store lis key a) key b = store lis key b"
  by (simp add: store_def)

lemma RPush_one:
  "RPush lis key [v] =
     Inr (int (length (logical lis key)) + 1, store lis key (Some (logical lis key @ [v])))"
  by (cases "item lis key")
    (simp_all add: RPush_def push_def item_store store_store PushBack_def Len_def logical_def)

lemma replay_entry:
  "replay (NewEntryNoExtra (Some key) v t m) lis =
     Inr (None, store lis key (Some (logical lis key @ [v])))"
  by (simp add: replay_def NewEntryNoExtra_def bytes_of_def RPush_one)

lemma DumpIterate_list_replay:
  "p < length l \<Longrightarrow>
   DumpIterate_list replay (Some key) l (Some p) lis =
     Inr (None, store lis key (Some (logical lis key @ drop p l)))"
proof (induction "length l - p" arbitrary: p lis)
  case 0
  then show ?case by simp
next
  case (Suc n)
  let ?lis1 = "store lis key (Some (logical lis key @ [l ! p]))"
  have step: "DumpIterate_list replay (Some key) l (Some p) lis =
              DumpIterate_list replay (Some key) l (Next l p) ?lis1"
    by (subst DumpIterate_list.simps) (simp add: Value_def replay_entry)
  have dr: "drop p l = l ! p # drop (Suc p) l"
    using Suc.prems by (simp add: Cons_nth_drop_Suc)
  show ?case
  proof (cases "Suc p < length l")
    case True
    have "DumpIterate_list replay (Some key) l (Some (Suc p)) ?lis1 =
          Inr (None, store ?lis1 key (Some (logical ?lis1 key @ drop (Suc p) l)))"
      using Suc.hyps(2) True by (intro Suc.hyps(1)) auto
    then show ?thesis
      using step True dr by (simp add: Next_def store_store logical_store)
  next
    case False
    then have "Next l p = None" and "drop (Suc p) l = []"
      using Suc.prems by (auto simp: Next_def)
    then show ?thesis
      using step dr by (simp add: DumpIterate_list.simps)
  qed
qed

lemma DumpIterate_list_replay_logical:
  "\<exists>lis'. DumpIterate_list replay (Some key) l (Front l) lis = Inr (None, lis') \<and>
          (\<forall>k. logical lis' k = (if k = key then logical lis key @ l else logical lis k))"
proof (cases "l = []")
  case True
  then show ?thesis by (simp add: Front_def DumpIterate_list.simps)
next
  case False
  then show ?thesis
    using DumpIterate_list_replay [of 0 l key lis]
    by (simp add: Front_def logical_store)
qed

lemma DumpIterate_keys_replay:
  assumes "distinct keys" and "\<forall>k \<in> set keys. records lis k \<noteq> Some None"
  shows "\<exists>lis'. DumpIterate_keys lis replay keys acc = Inr (None, lis') \<and>
     (\<forall>k. logical lis' k = (if k \<in> set keys then logical acc k @ logical lis k else logical acc k))"
  using assms
proof (induction keys arbitrary: acc)
  case Nil
  then show ?case by simp
next
  case (Cons key keys)
  then have IH: "\<exists>lis'. DumpIterate_keys lis replay keys acc' = Inr (None, lis') \<and>
     (\<forall>k. logical lis' k = (if k \<in> set keys then logical acc' k @ logical lis k else logical acc' k))"
    for acc'
    by simp
  from Cons.prems have notin: "key \<notin> set keys" by simp
  show ?case
  proof (cases "records lis key")
    case None
    then have "logical lis key = []" by (simp add: logical_def item_def)
    then show ?thesis
      using IH [of acc] None notin by auto
  next
    case (Some entry)
    with Cons.prems obtain l where l: "records lis key = Some (Some l)"
      by (cases entry) auto
    then have ll: "logical lis key = l" by (simp add: logical_def item_def)
    obtain acc1 where a1: "DumpIterate_list replay (Some key) l (Front l) acc = Inr (None, acc1)"
      and a2: "\<And>k. logical acc1 k = (if k = key then logical acc key @ l else logical acc k)"
      using DumpIterate_list_replay_logical [of key l acc] by auto
    obtain lis' where b1: "DumpIterate_keys lis replay keys acc1 = Inr (None, lis')"
      and b2: "\<And>k. logical lis' k =
        (if k \<in> set keys then logical acc1 k @ logical lis k else logical acc1 k)"
      using IH [of acc1] by auto
    have "DumpIterate_keys lis replay (key # keys) acc = Inr (None, lis')"
      using l a1 b1 by simp
    moreover have "logical lis' k =
      (if k \<in> set (key # keys) then logical acc k @ logical lis k else logical acc k)" for k
      using a2 b2 notin ll by auto
    ultimately show ?thesis by blast
  qed
qed

text \<open>
  On an index without nil lists the round trip rebuilds every logical list, in whatever
  order the keys are visited.
\<close>

lemma DumpIterate_replay_round_trip:
  assumes "distinct keys" and "set keys = dom (records lis)"
    and "\<forall>k. records lis k \<noteq> Some None"
  shows "case DumpIterate lis keys replay New of
           Inl p \<Rightarrow> False
         | Inr (err, lis') \<Rightarrow> err = None \<and> (\<forall>k. logical lis' k = logical lis k)"
proof -
  obtain lis' where r: "DumpIterate_keys lis replay keys New = Inr (None, lis')"
    and l: "\<And>k. logical lis' k =
      (if k \<in> set keys then logical New k @ logical lis k else logical New k)"
    using DumpIterate_keys_replay [of keys lis New] assms by auto
  have new: "logical New k = []" for k
    by (simp add: logical_def item_def New_def)
  have "logical lis k = []" if "k \<notin> set keys" for k
    using that assms(2) by (auto simp: logical_def item_def dom_def split: option.splits)
  then have "logical lis' k = logical lis k" for k
    using l [of k] new by auto
  then show ?thesis
    using r by (simp add: DumpIterate_def)
qed

subsection \<open>C8: DumpIterate on a nil list\<close>

text \<open>
  C8. The round trip, DumpIterate with a visitor that replays every entry as a push to the
  tail into a fresh index, is to rebuild every key's list. It does so on every index that
  holds no nil list (\<open>DumpIterate_replay_round_trip\<close>). But LTrim to the empty range stores
  nil under the key, and DumpIterate calls \<open>l.Front()\<close> on it without the nil check of the
  other operations: after a push of \<open>a\<close> to \<open>k\<close> and \<open>LTrim k 1 0\<close> the index holds nil
  under \<open>k\<close>, its logical list is empty, and DumpIterate panics.
\<close>

theorem DumpIterate_nil_list_panics:
  "RPush New ''k'' [Some ''a''] = Inr (1, \<lparr>records = [''k'' \<mapsto> Some [Some ''a'']]\<rparr>) \<and>
   LTrim \<lparr>records = [''k'' \<mapsto> Some [Some ''a'']]\<rparr> ''k'' 1 0 =
     Inr (True, \<lparr>records = [''k'' \<mapsto> None]\<rparr>) \<and>
   LLen \<lparr>records = [''k'' \<mapsto> None]\<rparr> ''k'' = 0 \<and>
   DumpIterate \<lparr>records = [''k'' \<mapsto> None]\<rparr> [''k''] replay New = Inl NilDereference"
  by (simp add: RPush_one logical_def New_def item_def store_def LTrim_def Len_def handleIndex_def
      LLen_def DumpIterate_def)

end
